theory Spec2Isabelle
  imports Main
begin

section \<open>JavaScript strings and the regular-expression character classes\<close>

text \<open>
  A JavaScript string is a sequence of UTF-16 code units, and the regular expressions of
  \<^verbatim>\<open>hls-generator-server.js\<close> carry no \<^verbatim>\<open>u\<close> flag, so they read one code unit at a
  time. A code unit is modelled by its number; \<open>js\<close> writes an ASCII literal.
\<close>

type_synonym jschar = nat
type_synonym jsstring = "jschar list"

definition js :: "string \<Rightarrow> jsstring" where
  "js s = map of_char s"

text \<open>\<^verbatim>\<open>\w\<close> is \<^verbatim>\<open>[A-Za-z0-9_]\<close>.\<close>

definition isWordChar :: "jschar \<Rightarrow> bool" where
  "isWordChar c =
     ((0x61 \<le> c \<and> c \<le> 0x7A) \<or> (0x41 \<le> c \<and> c \<le> 0x5A) \<or> (0x30 \<le> c \<and> c \<le> 0x39) \<or> c = 0x5F)"

text \<open>\<^verbatim>\<open>\s\<close> is ECMAScript's WhiteSpace and LineTerminator.\<close>

definition isSpaceChar :: "jschar \<Rightarrow> bool" where
  "isSpaceChar c =
     (c = 0x09 \<or> c = 0x0A \<or> c = 0x0B \<or> c = 0x0C \<or> c = 0x0D \<or> c = 0x20 \<or> c = 0xA0 \<or>
      c = 0x1680 \<or> (0x2000 \<le> c \<and> c \<le> 0x200A) \<or> c = 0x2028 \<or> c = 0x2029 \<or>
      c = 0x202F \<or> c = 0x205F \<or> c = 0x3000 \<or> c = 0xFEFF)"

text \<open>
  The punctuation test \<^verbatim>\<open>/^[^\w\s]+$/.test(token)\<close> of \<^verbatim>\<open>greedyMatchPhrases\<close>,
  \<^verbatim>\<open>estimateWordDuration\<close> and \<^verbatim>\<open>getStaticClip\<close>: a non-empty token none of whose
  code units is a word character or white space.
\<close>

definition isPunctuation :: "jsstring \<Rightarrow> bool" where
  "isPunctuation token =
     (token \<noteq> [] \<and> list_all (\<lambda>c. \<not> isWordChar c \<and> \<not> isSpaceChar c) token)"

text \<open>\<^verbatim>\<open>Array.prototype.join\<close> on an array of strings.\<close>

fun joinWith :: "jsstring \<Rightarrow> jsstring list \<Rightarrow> jsstring" where
  "joinWith sep [] = []"
| "joinWith sep [x] = x"
| "joinWith sep (x # y # ys) = x @ sep @ joinWith sep (y # ys)"

section \<open>Reading a property of an object\<close>

text \<open>
  The objects of the manifest come from \<^verbatim>\<open>JSON.parse\<close> (or are \<^verbatim>\<open>{}\<close>), so their prototype is
  \<^verbatim>\<open>Object.prototype\<close>, and \<^verbatim>\<open>obj[key]\<close> gives the object's own property where it has one and
  the member of \<^verbatim>\<open>Object.prototype\<close> of that name otherwise. The members are functions,
  told apart here by their \<^verbatim>\<open>length\<close>, and the accessor \<^verbatim>\<open>__proto__\<close>, which gives
  \<^verbatim>\<open>Object.prototype\<close> itself. An object is modelled by its own properties; \<open>Missing\<close> is
  \<^verbatim>\<open>undefined\<close> or \<^verbatim>\<open>null\<close>.
\<close>

datatype 'v jsvalue = Missing | Own 'v | ProtoFunction nat | ProtoObject

definition prototypeFunctions :: "(jsstring \<times> nat) list" where
  "prototypeFunctions =
     [(js ''constructor'', 1), (js ''hasOwnProperty'', 1), (js ''isPrototypeOf'', 1),
      (js ''propertyIsEnumerable'', 1), (js ''toLocaleString'', 0), (js ''toString'', 0),
      (js ''valueOf'', 0), (js ''__defineGetter__'', 2), (js ''__defineSetter__'', 2),
      (js ''__lookupGetter__'', 1), (js ''__lookupSetter__'', 1)]"

definition inheritedMember :: "jsstring \<Rightarrow> 'v jsvalue" where
  "inheritedMember key =
     (if key = js ''__proto__'' then ProtoObject
      else (case map_of prototypeFunctions key of
              Some n \<Rightarrow> ProtoFunction n
            | None \<Rightarrow> Missing))"

definition getProp :: "(jsstring \<rightharpoonup> 'v) \<Rightarrow> jsstring \<Rightarrow> 'v jsvalue" where
  "getProp obj key = (case obj key of Some v \<Rightarrow> Own v | None \<Rightarrow> inheritedMember key)"

text \<open>
  Truthiness of a property whose own values are recorded by their truthiness: functions
  and objects are truthy.
\<close>

definition truthyFlag :: "bool jsvalue \<Rightarrow> bool" where
  "truthyFlag v =
     (case v of Missing \<Rightarrow> False | Own b \<Rightarrow> b | ProtoFunction n \<Rightarrow> True | ProtoObject \<Rightarrow> True)"

text \<open>What the source throws: \<^verbatim>\<open>new Error(message)\<close>, and the runtime's \<^verbatim>\<open>TypeError\<close>.\<close>

datatype js_error = Error jsstring | TypeError

section \<open>The manifest\<close>

text \<open>
  Numbers are IEEE doubles in the source; the model leaves their type \<open>'n\<close> open and
  takes the operations on them from the runtime (below).
\<close>

record 'n clip =
  filename :: jsstring
  duration :: 'n

text \<open>
  \<^verbatim>\<open>staticClips.words\<close> and \<^verbatim>\<open>staticClips.punctuation\<close> are read with \<^verbatim>\<open>?.\<close>, so either
  may be missing (\<open>None\<close>).
\<close>

record 'n static_clips =
  words :: "(jsstring \<rightharpoonup> 'n clip) option"
  punctuation :: "(jsstring \<rightharpoonup> 'n clip) option"

text \<open>
  \<open>phraseMap m\<close> holds the own properties of \<^verbatim>\<open>this.phraseMap\<close>, each value by its
  truthiness; \<open>phraseClips m\<close> holds the own properties of \<^verbatim>\<open>this.phraseClips\<close>; so do the
  two objects of \<open>staticClips\<close>. \<open>fixedTokens m\<close> is \<open>None\<close> when the manifest has no
  \<^verbatim>\<open>fixedTokens\<close>.
\<close>

record 'n manifest =
  phraseMap :: "jsstring \<rightharpoonup> bool"
  phraseClips :: "jsstring \<rightharpoonup> 'n clip list"
  staticClips :: "'n static_clips"
  fixedTokens :: "jsstring list option"

text \<open>\<^verbatim>\<open>CONFIG.maxPhraseLength\<close>.\<close>

definition maxPhraseLength :: nat where
  "maxPhraseLength = 10"

section \<open>Tokenizing: the global match of \<^verbatim>\<open>/[\w'-]+|[^\w\s'-]/g\<close>\<close>

definition isWordRunChar :: "jschar \<Rightarrow> bool" where
  "isWordRunChar c = (isWordChar c \<or> c = 0x27 \<or> c = 0x2D)"

definition isSingleChar :: "jschar \<Rightarrow> bool" where
  "isSingleChar c = (\<not> isWordChar c \<and> \<not> isSpaceChar c \<and> c \<noteq> 0x27 \<and> c \<noteq> 0x2D)"

text \<open>
  At each position the first alternative takes the longest run of \<^verbatim>\<open>[\w'-]\<close>; where it
  does not match, the second takes one code unit that is neither white space nor in
  \<^verbatim>\<open>[\w'-]\<close>; white space matches neither and is passed over. No match at all gives
  \<^verbatim>\<open>null\<close>, which \<^verbatim>\<open>|| []\<close> turns into the empty array.
\<close>

function matchTokens :: "jsstring \<Rightarrow> jsstring list" where
  "matchTokens [] = []"
| "matchTokens (c # cs) =
     (if isWordRunChar c then
        (c # takeWhile isWordRunChar cs) # matchTokens (dropWhile isWordRunChar cs)
      else if isSingleChar c then [c] # matchTokens cs
      else matchTokens cs)"
  by pat_completeness auto
termination
  by (relation "measure length") (auto simp: length_dropWhile_le less_Suc_eq_le)

section \<open>Phrase matching: \<^verbatim>\<open>greedyMatchPhrases\<close>\<close>

record jsmatch =
  phrase :: jsstring
  start :: nat
  end_idx :: nat

text \<open>
  The inner \<^verbatim>\<open>while\<close> loop: from \<open>j\<close> it appends tokens to \<open>phraseTokens\<close> until \<open>len\<close>
  are collected, the tokens end, or a punctuation token is met.
\<close>

function collectTokens :: "jsstring list \<Rightarrow> nat \<Rightarrow> nat \<Rightarrow> jsstring list \<Rightarrow> jsstring list" where
  "collectTokens tokens len j phraseTokens =
     (if j < length tokens \<and> length phraseTokens < len then
        (if isPunctuation (tokens ! j) then phraseTokens
         else collectTokens tokens len (j + 1) (phraseTokens @ [tokens ! j]))
      else phraseTokens)"
  by pat_completeness auto
termination
  by (relation "measure (\<lambda>(tokens, len, j, phraseTokens). length tokens - j)") auto

declare collectTokens.simps [simp del]

text \<open>
  \<^verbatim>\<open>this.phraseMap[candidate] && this.phraseClips[candidate] &&
  this.phraseClips[candidate].length > 0\<close>. An array is truthy also when empty; the
  \<^verbatim>\<open>length\<close> of \<^verbatim>\<open>Object.prototype\<close> is \<^verbatim>\<open>undefined\<close>, which is not greater than 0.
\<close>

definition phraseAvailable :: "'n manifest \<Rightarrow> jsstring \<Rightarrow> bool" where
  "phraseAvailable m candidate =
     (truthyFlag (getProp (phraseMap m) candidate) \<and>
      (case getProp (phraseClips m) candidate of
         Missing \<Rightarrow> False
       | Own clips \<Rightarrow> length clips > 0
       | ProtoFunction n \<Rightarrow> n > 0
       | ProtoObject \<Rightarrow> False))"

text \<open>
  The \<^verbatim>\<open>for (let length = maxLen; length > 0; length--)\<close> loop, returning
  \<^verbatim>\<open>(bestMatch, bestLength)\<close>; \<open>None\<close> is \<^verbatim>\<open>null\<close>.
\<close>

fun tryLengths :: "'n manifest \<Rightarrow> jsstring list \<Rightarrow> nat \<Rightarrow> nat \<Rightarrow> jsstring option \<times> nat" where
  "tryLengths m tokens i 0 = (None, 0)"
| "tryLengths m tokens i (Suc k) =
     (let phraseTokens = collectTokens tokens (Suc k) i [] in
      if length phraseTokens \<noteq> Suc k then tryLengths m tokens i k
      else
        let candidate = joinWith (js '' '') phraseTokens in
        if phraseAvailable m candidate then (Some candidate, Suc k)
        else tryLengths m tokens i k)"

lemma tryLengths_pos: "tryLengths m tokens i k = (Some c, n) \<Longrightarrow> 0 < n"
  by (induction k) (auto simp: Let_def split: if_splits)

text \<open>
  The outer \<^verbatim>\<open>while (i < tokens.length)\<close> loop. \<^verbatim>\<open>if (bestMatch)\<close> tests a string for
  truthiness: \<^verbatim>\<open>null\<close> and the empty string both fail it.
\<close>

function greedyLoop :: "'n manifest \<Rightarrow> jsstring list \<Rightarrow> nat \<Rightarrow> jsmatch list \<Rightarrow> jsmatch list" where
  "greedyLoop m tokens i matches =
     (if i < length tokens then
        (if isPunctuation (tokens ! i) then greedyLoop m tokens (i + 1) matches
         else
           (case tryLengths m tokens i (min maxPhraseLength (length tokens - i)) of
              (None, bestLength) \<Rightarrow> greedyLoop m tokens (i + 1) matches
            | (Some bestMatch, bestLength) \<Rightarrow>
                if bestMatch \<noteq> [] then
                  greedyLoop m tokens (i + bestLength)
                    (matches @ [\<lparr>phrase = bestMatch, start = i, end_idx = i + bestLength\<rparr>])
                else greedyLoop m tokens (i + 1) matches))
      else matches)"
  by pat_completeness auto
termination
  by (relation "measure (\<lambda>(m, tokens, i, matches). length tokens - i)")
     (auto dest: tryLengths_pos [OF sym])

declare greedyLoop.simps [simp del]

definition greedyMatchPhrases :: "'n manifest \<Rightarrow> jsstring list \<Rightarrow> jsmatch list" where
  "greedyMatchPhrases m tokens = greedyLoop m tokens 0 []"

subsection \<open>What the specification says of a match\<close>

text \<open>
  The candidate phrase of length \<open>L\<close> at position \<open>i\<close>, and when it can be matched: \<open>L\<close>
  lies in \<open>1..maxPhraseLength\<close>, the \<open>L\<close> tokens from \<open>i\<close> exist and none is
  punctuation, and their join is in \<open>phraseMap\<close> with a non-empty pool in \<open>phraseClips\<close>.
  These two follow the specification's words; the theorems compare them with the loops.
\<close>

definition phraseAt :: "jsstring list \<Rightarrow> nat \<Rightarrow> nat \<Rightarrow> jsstring" where
  "phraseAt tokens i L = joinWith (js '' '') (take L (drop i tokens))"

definition matchable :: "'n manifest \<Rightarrow> jsstring list \<Rightarrow> nat \<Rightarrow> nat \<Rightarrow> bool" where
  "matchable m tokens i L =
     (0 < L \<and> L \<le> maxPhraseLength \<and> i + L \<le> length tokens \<and>
      list_all (\<lambda>t. \<not> isPunctuation t) (take L (drop i tokens)) \<and>
      phraseAvailable m (phraseAt tokens i L))"

text \<open>
  A match is the longest one at its start: it records the candidate of its length, that
  candidate can be matched, and no longer one can.
\<close>

definition longestMatch :: "'n manifest \<Rightarrow> jsstring list \<Rightarrow> jsmatch \<Rightarrow> bool" where
  "longestMatch m tokens mt =
     (start mt < end_idx mt \<and>
      phrase mt = phraseAt tokens (start mt) (end_idx mt - start mt) \<and>
      matchable m tokens (start mt) (end_idx mt - start mt) \<and>
      list_all (\<lambda>L. \<not> matchable m tokens (start mt) L)
        [Suc (end_idx mt - start mt) ..< Suc maxPhraseLength])"

text \<open>The half-open range of a match, and the indices some match of a list covers.\<close>

definition inMatch :: "jsmatch \<Rightarrow> nat \<Rightarrow> bool" where
  "inMatch mt i = (start mt \<le> i \<and> i < end_idx mt)"

definition coveredBy :: "jsmatch list \<Rightarrow> nat \<Rightarrow> bool" where
  "coveredBy matches i = list_ex (\<lambda>mt. inMatch mt i) matches"

section \<open>What the runtime supplies\<close>

text \<open>
  The pipeline calls library functions whose tables and arithmetic are not part of this
  repository: Unicode canonical decomposition and lower-casing, the MD5 digest, and
  double arithmetic with its decimal formatting. They are parameters of the model:
  \<^item> \<open>normalizeNFD\<close> is \<^verbatim>\<open>text.normalize('NFD')\<close>, \<open>toLowerCase\<close> is \<^verbatim>\<open>text.toLowerCase()\<close>;
  \<^item> \<open>md5Prefix s\<close> is
    \<^verbatim>\<open>parseInt(crypto.createHash('md5').update(s).digest('hex').substr(0, 8), 16)\<close>;
  \<^item> \<open>toFixed d x\<close> is \<^verbatim>\<open>x.toFixed(d)\<close>, \<open>numAdd\<close> is \<^verbatim>\<open>+\<close> on numbers, \<open>numZero\<close> is the
    literal \<^verbatim>\<open>0\<close> and \<open>openerDuration\<close> the literal \<^verbatim>\<open>8.08\<close>.
\<close>

record 'n runtime =
  normalizeNFD :: "jsstring \<Rightarrow> jsstring"
  toLowerCase :: "jsstring \<Rightarrow> jsstring"
  md5Prefix :: "jsstring \<Rightarrow> nat"
  toFixed :: "nat \<Rightarrow> 'n \<Rightarrow> jsstring"
  numAdd :: "'n \<Rightarrow> 'n \<Rightarrow> 'n"
  numZero :: 'n
  openerDuration :: 'n

section \<open>Normalizing: \<^verbatim>\<open>normalizeAndTokenize\<close>\<close>

text \<open>\<^verbatim>\<open>text.replace(/c/g, '')\<close> and \<^verbatim>\<open>text.replaceAll(oldChar, newChar)\<close> for single code units.\<close>

definition removeChar :: "jschar \<Rightarrow> jsstring \<Rightarrow> jsstring" where
  "removeChar c text = filter (\<lambda>x. x \<noteq> c) text"

definition replaceAll :: "jschar \<Rightarrow> jschar \<Rightarrow> jsstring \<Rightarrow> jsstring" where
  "replaceAll oldChar newChar text = map (\<lambda>x. if x = oldChar then newChar else x) text"

text \<open>The entries of \<^verbatim>\<open>quoteMap\<close>, in insertion order.\<close>

definition quoteMap :: "(jschar \<times> jschar) list" where
  "quoteMap =
     [(0x2018, 0x27), (0x2019, 0x27), (0x201A, 0x27), (0x201B, 0x27),
      (0x201C, 0x22), (0x201D, 0x22), (0x201E, 0x22), (0x201F, 0x22),
      (0x2032, 0x27), (0x2033, 0x22), (0x60, 0x27), (0xB4, 0x27),
      (0x2013, 0x2D), (0x2014, 0x2D)]"

definition normalizeAndTokenize :: "'n runtime \<Rightarrow> jsstring \<Rightarrow> jsstring list" where
  "normalizeAndTokenize rt text =
     (let text = removeChar 0x200D (removeChar 0x200C (removeChar 0x200B (removeChar 0xFEFF text)));
          text = foldl (\<lambda>t (oldChar, newChar). replaceAll oldChar newChar t) text quoteMap;
          text = filter (\<lambda>c. \<not> (0x300 \<le> c \<and> c \<le> 0x36F)) (normalizeNFD rt text);
          text = toLowerCase rt text
      in matchTokens text)"

section \<open>Selecting a clip: \<^verbatim>\<open>selectClip\<close>\<close>

text \<open>
  \<open>None\<close> for \<open>availableClips\<close> is \<^verbatim>\<open>null\<close> or \<^verbatim>\<open>undefined\<close>. The set \<open>usedClips\<close> is mutated
  by the source; the model returns it.
\<close>

definition selectClip ::
    "'n runtime \<Rightarrow> 'n clip list option \<Rightarrow> jsstring set \<Rightarrow> jsstring \<Rightarrow> 'n clip option \<times> jsstring set" where
  "selectClip rt availableClips usedClips seedStr =
     (case availableClips of
        None \<Rightarrow> (None, usedClips)
      | Some clips \<Rightarrow>
          if length clips = 0 then (None, usedClips)
          else
            let unused = filter (\<lambda>clip. filename clip \<notin> usedClips) clips;
                pool = (if length unused > 0 then unused else clips);
                index = md5Prefix rt seedStr mod length pool;
                selected = pool ! index
            in (Some selected, insert (filename selected) usedClips))"

text \<open>
  \<^verbatim>\<open>selectClip\<close> called with whatever a property read gave. An array or a missing value is
  a pool, as above. A function passes \<^verbatim>\<open>!availableClips\<close>; with \<^verbatim>\<open>length\<close> 0 the first
  \<^verbatim>\<open>return null\<close> is taken, otherwise \<^verbatim>\<open>availableClips.filter\<close> is \<^verbatim>\<open>undefined\<close> and calling it
  throws. \<^verbatim>\<open>Object.prototype\<close> has no \<^verbatim>\<open>length\<close> (\<^verbatim>\<open>undefined === 0\<close> fails) and no \<^verbatim>\<open>filter\<close>.
\<close>

definition selectClipOf ::
    "'n runtime \<Rightarrow> 'n clip list jsvalue \<Rightarrow> jsstring set \<Rightarrow> jsstring \<Rightarrow>
     js_error + 'n clip option \<times> jsstring set" where
  "selectClipOf rt availableClips usedClips seedStr =
     (case availableClips of
        Missing \<Rightarrow> Inr (selectClip rt None usedClips seedStr)
      | Own clips \<Rightarrow> Inr (selectClip rt (Some clips) usedClips seedStr)
      | ProtoFunction n \<Rightarrow> if n = 0 then Inr (None, usedClips) else Inl TypeError
      | ProtoObject \<Rightarrow> Inl TypeError)"

section \<open>Static fallback: \<^verbatim>\<open>slugify\<close> and \<^verbatim>\<open>getStaticClip\<close>\<close>

text \<open>\<^verbatim>\<open>text.replace(/[^a-z0-9]/g, '_')\<close>.\<close>

definition slugify :: "jsstring \<Rightarrow> jsstring" where
  "slugify text =
     map (\<lambda>c. if (0x61 \<le> c \<and> c \<le> 0x7A) \<or> (0x30 \<le> c \<and> c \<le> 0x39) then c else 0x5F) text"

text \<open>\<^verbatim>\<open>obj?.[key]\<close>: \<^verbatim>\<open>undefined\<close> when the object is missing, \<^verbatim>\<open>obj[key]\<close> otherwise.\<close>

definition optIndex :: "(jsstring \<rightharpoonup> 'v) option \<Rightarrow> jsstring \<Rightarrow> 'v jsvalue" where
  "optIndex obj key = (case obj of None \<Rightarrow> Missing | Some f \<Rightarrow> getProp f key)"

text \<open>\<^verbatim>\<open>a || b\<close> on values that are objects or functions, which are truthy, or missing.\<close>

definition orElse :: "'v jsvalue \<Rightarrow> 'v jsvalue \<Rightarrow> 'v jsvalue" where
  "orElse a b = (case a of Missing \<Rightarrow> b | Own x \<Rightarrow> a | ProtoFunction n \<Rightarrow> a | ProtoObject \<Rightarrow> a)"

text \<open>
  In the source file each of the first two \<^verbatim>\<open>if\<close>s compares the token with one and the
  same literal three times: \<^verbatim>\<open>'"'\<close> (U+0022) in the first, \<^verbatim>\<open>"'"\<close> (U+0027) in the second.
  The third compares it with the em dash U+2014 and the en dash U+2013.
\<close>

definition getStaticClip :: "'n manifest \<Rightarrow> jsstring \<Rightarrow> 'n clip jsvalue" where
  "getStaticClip m token =
     (if isPunctuation token then
        let punct = token;
            punct = (if token = [0x22] \<or> token = [0x22] \<or> token = [0x22] then [0x22] else punct);
            punct = (if token = [0x27] \<or> token = [0x27] \<or> token = [0x27] then [0x27] else punct);
            punct = (if token = [0x2014] \<or> token = [0x2013] then [0x2D] else punct)
        in orElse (optIndex (punctuation (staticClips m)) punct)
             (orElse (optIndex (punctuation (staticClips m)) (js ''.'')) Missing)
      else
        let slugifiedToken = slugify token;
            wordClip = optIndex (words (staticClips m)) slugifiedToken
        in (case wordClip of
              Missing \<Rightarrow> Missing
            | Own c \<Rightarrow> wordClip
            | ProtoFunction n \<Rightarrow> wordClip
            | ProtoObject \<Rightarrow> wordClip))"

section \<open>Building the script: \<^verbatim>\<open>generateScript\<close>\<close>

datatype item_type = PhraseType | StaticType

record 'n script_item =
  item_text :: jsstring
  item_filename :: jsstring
  item_duration :: 'n
  item_type :: item_type

text \<open>
  What \<^verbatim>\<open>script.push\<close> is given: an item with the filename and the duration of a clip, or,
  where the value taken for a clip is a member of \<^verbatim>\<open>Object.prototype\<close>, an item whose
  \<^verbatim>\<open>filename\<close> and \<^verbatim>\<open>duration\<close> are \<^verbatim>\<open>undefined\<close> (\<open>Bare\<close>, with its text and type).
\<close>

datatype 'n script_entry = Item "'n script_item" | Bare jsstring item_type

fun entryType :: "'n script_entry \<Rightarrow> item_type" where
  "entryType (Item item) = item_type item"
| "entryType (Bare t ty) = ty"

text \<open>
  The state of the loop: the \<^verbatim>\<open>script\<close> and the \<^verbatim>\<open>usedClips\<close> of the source, and three
  lists that record what the loop did, for the theorems only: the indices \<open>i\<close> at which
  \<^verbatim>\<open>selectClip\<close> was called, those at which \<^verbatim>\<open>getStaticClip\<close> was called, and for each
  item of the script the index at which it was pushed.
\<close>

record 'n gen_state =
  st_script :: "'n script_entry list"
  st_usedClips :: "jsstring set"
  st_selectCalls :: "nat list"
  st_staticCalls :: "nat list"
  st_pushedAt :: "nat list"

text \<open>
  The branch \<^verbatim>\<open>if (match)\<close>. \<^verbatim>\<open>this.phraseClips[match.phrase] || []\<close> is the empty array where
  the read gives nothing; \<^verbatim>\<open>tokens.slice(a, b)\<close> is \<open>take (b - a) (drop a tokens)\<close>. A throw of
  \<^verbatim>\<open>selectClip\<close> leaves the loop.
\<close>

definition phraseStep ::
    "'n runtime \<Rightarrow> 'n manifest \<Rightarrow> jsstring list \<Rightarrow> jsstring \<Rightarrow> nat \<Rightarrow> jsmatch \<Rightarrow> 'n gen_state \<Rightarrow>
     js_error + 'n gen_state" where
  "phraseStep rt m tokens seed i mt st =
     (let availableClips = orElse (getProp (phraseClips m) (phrase mt)) (Own [])
      in case selectClipOf rt availableClips (st_usedClips st) (seed @ phrase mt) of
           Inl e \<Rightarrow> Inl e
         | Inr (clip, used) \<Rightarrow>
             let st = st\<lparr>st_usedClips := used, st_selectCalls := st_selectCalls st @ [i]\<rparr>
             in case clip of
                  Some c \<Rightarrow>
                    Inr (st\<lparr>st_script := st_script st @
                          [Item \<lparr>item_text = joinWith (js '' '')
                                               (take (end_idx mt - start mt) (drop (start mt) tokens)),
                                 item_filename = filename c, item_duration = duration c,
                                 item_type = PhraseType\<rparr>],
                       st_pushedAt := st_pushedAt st @ [i]\<rparr>)
                | None \<Rightarrow> Inr st)"

text \<open>
  The branch \<^verbatim>\<open>else if (!covered.has(i))\<close>. \<^verbatim>\<open>if (staticClip)\<close> holds for whatever
  \<^verbatim>\<open>getStaticClip\<close> returned but \<^verbatim>\<open>null\<close>.
\<close>

definition staticStep :: "'n manifest \<Rightarrow> jsstring list \<Rightarrow> nat \<Rightarrow> 'n gen_state \<Rightarrow> 'n gen_state" where
  "staticStep m tokens i st =
     (let token = tokens ! i;
          staticClip = getStaticClip m token;
          st = st\<lparr>st_staticCalls := st_staticCalls st @ [i]\<rparr>
      in case staticClip of
           Missing \<Rightarrow> st
         | Own c \<Rightarrow>
             st\<lparr>st_script := st_script st @
                   [Item \<lparr>item_text = token, item_filename = filename c, item_duration = duration c,
                          item_type = StaticType\<rparr>],
                st_pushedAt := st_pushedAt st @ [i]\<rparr>
         | ProtoFunction n \<Rightarrow>
             st\<lparr>st_script := st_script st @ [Bare token StaticType],
                st_pushedAt := st_pushedAt st @ [i]\<rparr>
         | ProtoObject \<Rightarrow>
             st\<lparr>st_script := st_script st @ [Bare token StaticType],
                st_pushedAt := st_pushedAt st @ [i]\<rparr>)"

text \<open>
  The \<^verbatim>\<open>for\<close> loop over \<open>i\<close>. After a match the source sets \<^verbatim>\<open>i = match.end - 1\<close> and the
  loop adds one, so the next index is \<open>end_idx mt\<close>. \<open>coveredBy matches i\<close> is
  \<^verbatim>\<open>covered.has(i)\<close>, and \<open>find\<close> is \<^verbatim>\<open>matches.find(m => m.start === i)\<close>. With a match whose
  end is not beyond its start the source's loop may never end; not returning is \<open>None\<close>,
  a throw is \<open>Some (Inl e)\<close>.
\<close>

partial_function (option) scriptLoop ::
    "'n runtime \<Rightarrow> 'n manifest \<Rightarrow> jsstring list \<Rightarrow> jsmatch list \<Rightarrow> jsstring \<Rightarrow> nat \<Rightarrow> 'n gen_state \<Rightarrow>
     (js_error + 'n gen_state) option" where
  "scriptLoop rt m tokens matches seed i st =
     (if i < length tokens then
        (case find (\<lambda>mt. start mt = i) matches of
           Some mt \<Rightarrow>
             (case phraseStep rt m tokens seed i mt st of
                Inl e \<Rightarrow> Some (Inl e)
              | Inr st' \<Rightarrow> scriptLoop rt m tokens matches seed (end_idx mt) st')
         | None \<Rightarrow>
             if \<not> coveredBy matches i then
               scriptLoop rt m tokens matches seed (i + 1) (staticStep m tokens i st)
             else scriptLoop rt m tokens matches seed (i + 1) st)
      else Some (Inr st))"

definition generateScriptRun ::
    "'n runtime \<Rightarrow> 'n manifest \<Rightarrow> jsstring list \<Rightarrow> jsmatch list \<Rightarrow> jsstring \<Rightarrow>
     (js_error + 'n gen_state) option" where
  "generateScriptRun rt m tokens matches sessionId =
     scriptLoop rt m tokens matches sessionId 0
       \<lparr>st_script = [], st_usedClips = {}, st_selectCalls = [], st_staticCalls = [], st_pushedAt = []\<rparr>"

definition generateScript ::
    "'n runtime \<Rightarrow> 'n manifest \<Rightarrow> jsstring list \<Rightarrow> jsmatch list \<Rightarrow> jsstring \<Rightarrow>
     (js_error + 'n script_entry list) option" where
  "generateScript rt m tokens matches sessionId =
     map_option (map_sum id st_script) (generateScriptRun rt m tokens matches sessionId)"

section \<open>Serializing: \<^verbatim>\<open>buildM3U8\<close>\<close>

text \<open>The decimal digits of a natural number, as a template literal prints it.\<close>

function showNat :: "nat \<Rightarrow> jsstring" where
  "showNat n = (if n < 10 then [0x30 + n] else showNat (n div 10) @ [0x30 + n mod 10])"
  by pat_completeness auto
termination
  by (relation "measure id") auto

declare showNat.simps [simp del]

text \<open>
  \<^verbatim>\<open>CONFIG.r2BaseUrl\<close> is \<^verbatim>\<open>process.env.R2_BASE_URL || null\<close>; \<^verbatim>\<open>if (CONFIG.r2BaseUrl)\<close> holds
  for a non-empty string.
\<close>

definition truthyString :: "jsstring option \<Rightarrow> bool" where
  "truthyString s = (case s of None \<Rightarrow> False | Some x \<Rightarrow> x \<noteq> [])"

definition openerPath :: "jsstring option \<Rightarrow> jsstring" where
  "openerPath r2BaseUrl =
     (if truthyString r2BaseUrl then the r2BaseUrl @ js ''/hls_clips/static/opener.ts''
      else js ''/hls_clips/static/opener.ts'')"

definition clipPath :: "jsstring option \<Rightarrow> 'n script_item \<Rightarrow> jsstring" where
  "clipPath r2BaseUrl item =
     (if truthyString r2BaseUrl then
        (if item_type item = PhraseType
         then the r2BaseUrl @ js ''/hls_clips/trimmed/'' @ item_filename item
         else the r2BaseUrl @ js ''/hls_clips/static/'' @ item_filename item)
      else
        (if item_type item = PhraseType
         then js ''/hls_clips/trimmed/'' @ item_filename item
         else js ''/hls_clips/static/'' @ item_filename item))"

text \<open>The \<^verbatim>\<open>for (const item of script)\<close> loop, on \<^verbatim>\<open>lines\<close> and \<^verbatim>\<open>totalDuration\<close>.\<close>

fun segmentLoop ::
    "'n runtime \<Rightarrow> jsstring option \<Rightarrow> 'n script_item list \<Rightarrow> jsstring list \<times> 'n \<Rightarrow> jsstring list \<times> 'n" where
  "segmentLoop rt r2BaseUrl [] (lines, totalDuration) = (lines, totalDuration)"
| "segmentLoop rt r2BaseUrl (item # rest) (lines, totalDuration) =
     segmentLoop rt r2BaseUrl rest
       (lines @ [js ''#EXT-X-DISCONTINUITY'',
                 js ''#EXTINF:'' @ toFixed rt 3 (item_duration item) @ js '','',
                 clipPath r2BaseUrl item],
        numAdd rt totalDuration (item_duration item))"

text \<open>
  The array \<^verbatim>\<open>lines\<close> at the \<^verbatim>\<open>return\<close>. \<open>now\<close> is \<^verbatim>\<open>new Date().toISOString()\<close>, the reading
  of the clock at the call.
\<close>

definition buildLines ::
    "'n runtime \<Rightarrow> jsstring option \<Rightarrow> jsstring \<Rightarrow> 'n script_item list \<Rightarrow> jsstring \<Rightarrow> jsstring list" where
  "buildLines rt r2BaseUrl now script sessionId =
     (let lines = [js ''#EXTM3U'', js ''#EXT-X-VERSION:3'', js ''#EXT-X-TARGETDURATION:10'',
                   js ''#EXT-X-PLAYLIST-TYPE:VOD''];
          lines = lines @ [js ''# Session: '' @ sessionId];
          lines = lines @ [js ''# Generated: '' @ now];
          lines = lines @ [js ''# Clips: '' @ showNat (length script + 1)];
          totalDuration = numZero rt;
          lines = lines @ [js ''#EXT-X-DISCONTINUITY''];
          lines = lines @ [js ''#EXTINF:'' @ toFixed rt 3 (openerDuration rt) @ js '',''];
          lines = lines @ [openerPath r2BaseUrl];
          totalDuration = numAdd rt totalDuration (openerDuration rt);
          (lines, totalDuration) = segmentLoop rt r2BaseUrl script (lines, totalDuration);
          lines = lines @ [js ''#EXT-X-ENDLIST''];
          lines = lines @ [js ''# Total duration: '' @ toFixed rt 1 totalDuration @ js ''s'']
      in lines)"

definition buildM3U8 ::
    "'n runtime \<Rightarrow> jsstring option \<Rightarrow> jsstring \<Rightarrow> 'n script_item list \<Rightarrow> jsstring \<Rightarrow> jsstring" where
  "buildM3U8 rt r2BaseUrl now script sessionId =
     joinWith [0x0A] (buildLines rt r2BaseUrl now script sessionId)"

text \<open>
  \<^verbatim>\<open>buildM3U8\<close> on a script as \<^verbatim>\<open>generateScript\<close> returns it. Nothing before the loop reads
  an item; in the loop \<^verbatim>\<open>item.duration.toFixed(3)\<close> throws at the first item whose duration
  is \<^verbatim>\<open>undefined\<close>. \<open>scriptItems\<close> gives the items when each has its clip.
\<close>

fun scriptItems :: "'n script_entry list \<Rightarrow> 'n script_item list option" where
  "scriptItems [] = Some []"
| "scriptItems (Item item # rest) = map_option ((#) item) (scriptItems rest)"
| "scriptItems (Bare t ty # rest) = None"

definition buildM3U8Of ::
    "'n runtime \<Rightarrow> jsstring option \<Rightarrow> jsstring \<Rightarrow> 'n script_entry list \<Rightarrow> jsstring \<Rightarrow>
     js_error + jsstring" where
  "buildM3U8Of rt r2BaseUrl now script sessionId =
     (case scriptItems script of
        None \<Rightarrow> Inl TypeError
      | Some items \<Rightarrow> Inr (buildM3U8 rt r2BaseUrl now items sessionId))"

section \<open>The pipeline: \<^verbatim>\<open>generatePlaylist\<close>\<close>

record 'n generated =
  res_playlist :: jsstring
  res_script :: "'n script_entry list"
  res_tokens :: "jsstring list"
  res_matches :: "jsmatch list"

text \<open>
  \<open>Some (Inl e)\<close> is \<^verbatim>\<open>throw e\<close>, also from a call made on the way; \<open>Some (Inr r)\<close> is
  \<^verbatim>\<open>return r\<close>, and \<open>None\<close> is a call that does not return.
\<close>

definition generatePlaylist ::
    "'n runtime \<Rightarrow> jsstring option \<Rightarrow> jsstring \<Rightarrow> 'n manifest \<Rightarrow> jsstring \<Rightarrow>
     (js_error + 'n generated) option" where
  "generatePlaylist rt r2BaseUrl now m sessionId =
     (case fixedTokens m of
        None \<Rightarrow> Some (Inl (Error (js ''No fixed text available in manifest'')))
      | Some tokens \<Rightarrow>
          let matches = greedyMatchPhrases m tokens in
          (case generateScript rt m tokens matches sessionId of
             None \<Rightarrow> None
           | Some (Inl e) \<Rightarrow> Some (Inl e)
           | Some (Inr script) \<Rightarrow>
               (case buildM3U8Of rt r2BaseUrl now script sessionId of
                  Inl e \<Rightarrow> Some (Inl e)
                | Inr playlist \<Rightarrow>
                    Some (Inr \<lparr>res_playlist = playlist, res_script = script,
                               res_tokens = tokens, res_matches = matches\<rparr>))))"

subsection \<open>The shape of the playlist\<close>

text \<open>
  The three lines of one segment, the running total of the durations, and the text of
  a playlist up to the reading of the clock.
\<close>

definition itemLines :: "'n runtime \<Rightarrow> jsstring option \<Rightarrow> 'n script_item \<Rightarrow> jsstring list" where
  "itemLines rt r2BaseUrl item =
     [js ''#EXT-X-DISCONTINUITY'',
      js ''#EXTINF:'' @ toFixed rt 3 (item_duration item) @ js '','',
      clipPath r2BaseUrl item]"

definition totalOf :: "'n runtime \<Rightarrow> 'n script_item list \<Rightarrow> 'n" where
  "totalOf rt script =
     foldl (\<lambda>t item. numAdd rt t (item_duration item))
       (numAdd rt (numZero rt) (openerDuration rt)) script"

definition playlistHead :: "jsstring \<Rightarrow> jsstring" where
  "playlistHead sessionId =
     js ''#EXTM3U'' @ [0x0A] @ js ''#EXT-X-VERSION:3'' @ [0x0A] @
     js ''#EXT-X-TARGETDURATION:10'' @ [0x0A] @ js ''#EXT-X-PLAYLIST-TYPE:VOD'' @ [0x0A] @
     js ''# Session: '' @ sessionId @ [0x0A] @ js ''# Generated: ''"

subsection \<open>Reading a playlist by lines\<close>

text \<open>The lines of a text, as \<^verbatim>\<open>text.split('\n')\<close> gives them.\<close>

fun splitLines :: "jsstring \<Rightarrow> jsstring list" where
  "splitLines [] = [[]]"
| "splitLines (c # cs) =
     (if c = 0x0A then [] # splitLines cs
      else (case splitLines cs of [] \<Rightarrow> [[c]] | l # ls \<Rightarrow> (c # l) # ls))"

definition isExtinfLine :: "jsstring \<Rightarrow> bool" where
  "isExtinfLine l = (take 8 l = js ''#EXTINF:'')"

text \<open>In a playlist a line that is not empty and does not start with \<^verbatim>\<open>#\<close> is a URI.\<close>

definition isUrlLine :: "jsstring \<Rightarrow> bool" where
  "isUrlLine l = (case l of [] \<Rightarrow> False | c # cs \<Rightarrow> c \<noteq> 0x23)"

text \<open>
  \<open>framed prev ls\<close>: every \<^verbatim>\<open>#EXTINF\<close> line of \<open>ls\<close> comes right after a
  \<^verbatim>\<open>#EXT-X-DISCONTINUITY\<close> line (\<open>prev\<close> is the line before \<open>ls\<close>) and right before a URI
  line.
\<close>

fun framed :: "jsstring \<Rightarrow> jsstring list \<Rightarrow> bool" where
  "framed prev [] = True"
| "framed prev (l # ls) =
     ((if isExtinfLine l
       then prev = js ''#EXT-X-DISCONTINUITY'' \<and> (case ls of [] \<Rightarrow> False | u # us \<Rightarrow> isUrlLine u)
       else True) \<and>
      framed l ls)"

text \<open>
  What the serializer is given holds no line break, and a configured base URL does not
  start with \<^verbatim>\<open>#\<close>: then the lines of the playlist are the entries of \<^verbatim>\<open>lines\<close>.
\<close>

definition singleLine :: "jsstring \<Rightarrow> bool" where
  "singleLine s = (0x0A \<notin> set s)"

definition lineSafe ::
    "'n runtime \<Rightarrow> jsstring option \<Rightarrow> jsstring \<Rightarrow> 'n script_item list \<Rightarrow> jsstring \<Rightarrow> bool" where
  "lineSafe rt r2BaseUrl now script sessionId =
     (singleLine sessionId \<and> singleLine now \<and>
      (case r2BaseUrl of None \<Rightarrow> True | Some b \<Rightarrow> singleLine b \<and> take 1 b \<noteq> [0x23]) \<and>
      list_all (\<lambda>item. singleLine (item_filename item) \<and>
                        singleLine (toFixed rt 3 (item_duration item))) script \<and>
      singleLine (toFixed rt 3 (openerDuration rt)) \<and>
      singleLine (toFixed rt 1 (totalOf rt script)))"

text \<open>
  The condition the matcher's loop keeps for the matches \<open>new\<close> it adds from position \<open>i\<close>
  on: they are in order and disjoint, each is the longest match at its start, and every
  later position with a non-empty token that they leave uncovered has no candidate.
\<close>

definition gpost :: "'n manifest \<Rightarrow> jsstring list \<Rightarrow> nat \<Rightarrow> jsmatch list \<Rightarrow> bool" where
  "gpost m tokens i new =
     (sorted_wrt (\<lambda>a b. end_idx a \<le> start b) new \<and>
      (\<forall>mt\<in>set new. i \<le> start mt \<and> end_idx mt \<le> length tokens \<and> phrase mt \<noteq> [] \<and>
          longestMatch m tokens mt) \<and>
      (\<forall>j. i \<le> j \<and> j < length tokens \<and> \<not> coveredBy new j \<and> tokens ! j \<noteq> [] \<longrightarrow>
          (\<forall>L. \<not> matchable m tokens j L)))"

text \<open>
  For the script builder: \<open>isStart matches i\<close> is the test \<^verbatim>\<open>if (match)\<close> at index \<open>i\<close>;
  \<open>wellFormedMatches n matches\<close> says the matches lie within \<open>n\<close> tokens, are not empty,
  and each ends where or before the next starts; \<open>scriptPost\<close> relates the loop's state at
  index \<open>i\<close> with its state at the end: \<^verbatim>\<open>selectClip\<close> is called once at each later start
  of a match, \<^verbatim>\<open>getStaticClip\<close> once at each later uncovered index, and the items pushed
  come from such indices, in increasing order, typed by the branch that pushed them.
\<close>

definition isStart :: "jsmatch list \<Rightarrow> nat \<Rightarrow> bool" where
  "isStart matches i = (find (\<lambda>mt. start mt = i) matches \<noteq> None)"

definition wellFormedMatches :: "nat \<Rightarrow> jsmatch list \<Rightarrow> bool" where
  "wellFormedMatches n matches =
     (list_all (\<lambda>mt. start mt < end_idx mt \<and> end_idx mt \<le> n) matches \<and>
      sorted_wrt (\<lambda>a b. end_idx a \<le> start b) matches)"

definition scriptPost :: "jsmatch list \<Rightarrow> nat \<Rightarrow> nat \<Rightarrow> 'n gen_state \<Rightarrow> 'n gen_state \<Rightarrow> bool" where
  "scriptPost matches n i st st' =
     (st_selectCalls st' = st_selectCalls st @ filter (isStart matches) [i..<n] \<and>
      st_staticCalls st' = st_staticCalls st @ filter (\<lambda>j. \<not> coveredBy matches j) [i..<n] \<and>
      (\<exists>P. st_pushedAt st' = st_pushedAt st @ P \<and> sorted_wrt (<) P \<and>
           list_all (\<lambda>j. i \<le> j \<and> j < n) P \<and>
           map entryType (st_script st') =
             map entryType (st_script st) @
             map (\<lambda>j. if isStart matches j then PhraseType else StaticType) P \<and>
           list_all (\<lambda>j. isStart matches j \<or> \<not> coveredBy matches j) P))"

text \<open>
  The loop stands at an index \<open>i\<close> that no match straddles: every match is over by \<open>i\<close>
  or starts at \<open>i\<close> or later.
\<close>

definition aligned :: "jsmatch list \<Rightarrow> nat \<Rightarrow> bool" where
  "aligned ms i = list_all (\<lambda>mt. end_idx mt \<le> i \<or> i \<le> start mt) ms"

section \<open>Example data\<close>

text \<open>A small manifest, with durations counted in thousandths of a second.\<close>

definition exampleManifest :: "nat manifest" where
  "exampleManifest =
     \<lparr>phraseMap = [js ''good morning'' \<mapsto> True, js ''morning'' \<mapsto> True,
                   js ''hello world'' \<mapsto> True],
      phraseClips =
        [js ''good morning'' \<mapsto>
           [\<lparr>filename = js ''gm1.ts'', duration = 1200\<rparr>,
            \<lparr>filename = js ''gm2.ts'', duration = 1300\<rparr>,
            \<lparr>filename = js ''gm3.ts'', duration = 1100\<rparr>],
         js ''morning'' \<mapsto> [\<lparr>filename = js ''mo.ts'', duration = 700\<rparr>],
         js ''hello world'' \<mapsto> [\<lparr>filename = js ''hw.ts'', duration = 2000\<rparr>]],
      staticClips =
        \<lparr>words = Some [js ''foo'' \<mapsto> \<lparr>filename = js ''foo.ts'', duration = 500\<rparr>],
         punctuation = Some [js ''.'' \<mapsto> \<lparr>filename = js ''period.ts'', duration = 150\<rparr>,
                             [0x22] \<mapsto> \<lparr>filename = js ''quote.ts'', duration = 100\<rparr>]\<rparr>,
      fixedTokens = Some [js ''hello'', js ''world'', js '','', js ''good'', js ''morning'', js ''foo'']\<rparr>"

definition exampleTokens :: "jsstring list" where
  "exampleTokens = [js ''hello'', js ''world'', js '','', js ''good'', js ''morning'', js ''foo'']"

text \<open>
  A runtime to evaluate examples with. Its decomposition and lower-casing follow Unicode
  on the Latin-1 letters and leave other code units alone; its numbers are thousandths,
  added exactly and printed by \<open>toFixedMillis\<close> with up to three decimals, halves
  rounded up; \<open>exampleHash\<close> stands where MD5 does. The theorems below hold for every
  runtime and use this one only at their witnesses.
\<close>

definition latin1Decomposition :: "(jschar \<times> jschar \<times> jschar) list" where
  "latin1Decomposition =
     [(0xC0, 0x41, 0x300), (0xC1, 0x41, 0x301), (0xC2, 0x41, 0x302), (0xC3, 0x41, 0x303),
      (0xC4, 0x41, 0x308), (0xC5, 0x41, 0x30A), (0xC7, 0x43, 0x327), (0xC8, 0x45, 0x300),
      (0xC9, 0x45, 0x301), (0xCA, 0x45, 0x302), (0xCB, 0x45, 0x308), (0xCC, 0x49, 0x300),
      (0xCD, 0x49, 0x301), (0xCE, 0x49, 0x302), (0xCF, 0x49, 0x308), (0xD1, 0x4E, 0x303),
      (0xD2, 0x4F, 0x300), (0xD3, 0x4F, 0x301), (0xD4, 0x4F, 0x302), (0xD5, 0x4F, 0x303),
      (0xD6, 0x4F, 0x308), (0xD9, 0x55, 0x300), (0xDA, 0x55, 0x301), (0xDB, 0x55, 0x302),
      (0xDC, 0x55, 0x308), (0xDD, 0x59, 0x301),
      (0xE0, 0x61, 0x300), (0xE1, 0x61, 0x301), (0xE2, 0x61, 0x302), (0xE3, 0x61, 0x303),
      (0xE4, 0x61, 0x308), (0xE5, 0x61, 0x30A), (0xE7, 0x63, 0x327), (0xE8, 0x65, 0x300),
      (0xE9, 0x65, 0x301), (0xEA, 0x65, 0x302), (0xEB, 0x65, 0x308), (0xEC, 0x69, 0x300),
      (0xED, 0x69, 0x301), (0xEE, 0x69, 0x302), (0xEF, 0x69, 0x308), (0xF1, 0x6E, 0x303),
      (0xF2, 0x6F, 0x300), (0xF3, 0x6F, 0x301), (0xF4, 0x6F, 0x302), (0xF5, 0x6F, 0x303),
      (0xF6, 0x6F, 0x308), (0xF9, 0x75, 0x300), (0xFA, 0x75, 0x301), (0xFB, 0x75, 0x302),
      (0xFC, 0x75, 0x308), (0xFD, 0x79, 0x301), (0xFF, 0x79, 0x308)]"

definition decomposeChar :: "jschar \<Rightarrow> jsstring" where
  "decomposeChar c =
     (case map_of latin1Decomposition c of Some (base, mark) \<Rightarrow> [base, mark] | None \<Rightarrow> [c])"

definition lowerChar :: "jschar \<Rightarrow> jschar" where
  "lowerChar c =
     (if (0x41 \<le> c \<and> c \<le> 0x5A) \<or> (0xC0 \<le> c \<and> c \<le> 0xDE \<and> c \<noteq> 0xD7) then c + 0x20 else c)"

definition exampleHash :: "jsstring \<Rightarrow> nat" where
  "exampleHash s = foldl (\<lambda>h c. (31 * h + c) mod 4294967296) 7 s"

definition toFixedMillis :: "nat \<Rightarrow> nat \<Rightarrow> jsstring" where
  "toFixedMillis d x =
     (let scale = 10 ^ (3 - d);
          n = (x + scale div 2) div scale;
          whole = showNat (n div 10 ^ d);
          frac = showNat (n mod 10 ^ d)
      in if d = 0 then whole
         else whole @ js ''.'' @ replicate (d - length frac) 0x30 @ frac)"

definition exampleRuntime :: "nat runtime" where
  "exampleRuntime =
     \<lparr>normalizeNFD = (\<lambda>text. concat (map decomposeChar text)),
      toLowerCase = map lowerChar,
      md5Prefix = exampleHash,
      toFixed = toFixedMillis,
      numAdd = (+),
      numZero = 0,
      openerDuration = 8080\<rparr>"

text \<open>
  A pool of three clips. The text \<^verbatim>\<open>cafe's "quote"\<close> with U+00E9, the accented letter, for
  its \<^verbatim>\<open>e\<close>: with straight quotes, with curly quotes, decomposed, and with the accent
  removed.
\<close>

definition examplePool :: "nat clip list" where
  "examplePool =
     [\<lparr>filename = js ''gm1.ts'', duration = 1200\<rparr>,
      \<lparr>filename = js ''gm2.ts'', duration = 1300\<rparr>,
      \<lparr>filename = js ''gm3.ts'', duration = 1100\<rparr>]"

definition cafeInput :: jsstring where
  "cafeInput = js ''caf'' @ [0xE9, 0x27] @ js ''s '' @ [0x22] @ js ''quote'' @ [0x22]"

definition cafeInputCurly :: jsstring where
  "cafeInputCurly = js ''caf'' @ [0xE9, 0x2019] @ js ''s '' @ [0x201C] @ js ''quote'' @ [0x201D]"

definition cafeDecomposed :: jsstring where
  "cafeDecomposed = js ''cafe'' @ [0x301, 0x27] @ js ''s '' @ [0x22] @ js ''quote'' @ [0x22]"

definition cafeFolded :: jsstring where
  "cafeFolded = js ''cafe'' @ [0x27] @ js ''s '' @ [0x22] @ js ''quote'' @ [0x22]"

text \<open>The matches of the example tokens, and the script built from them for the seed \<^verbatim>\<open>abc\<close>.\<close>

definition exampleMatches :: "jsmatch list" where
  "exampleMatches =
     [\<lparr>phrase = js ''hello world'', start = 0, end_idx = 2\<rparr>,
      \<lparr>phrase = js ''good morning'', start = 3, end_idx = 5\<rparr>]"

definition exampleScript :: "nat script_item list" where
  "exampleScript =
     [\<lparr>item_text = js ''hello world'', item_filename = js ''hw.ts'', item_duration = 2000,
        item_type = PhraseType\<rparr>,
      \<lparr>item_text = js '','', item_filename = js ''period.ts'', item_duration = 150,
        item_type = StaticType\<rparr>,
      \<lparr>item_text = js ''good morning'', item_filename = js ''gm2.ts'', item_duration = 1300,
        item_type = PhraseType\<rparr>,
      \<lparr>item_text = js ''foo'', item_filename = js ''foo.ts'', item_duration = 500,
        item_type = StaticType\<rparr>]"

section \<open>Properties of the phrase matcher\<close>

subsection \<open>The inner loops\<close>

lemma collectTokens_eq:
  "collectTokens tokens len j acc =
     acc @ takeWhile (\<lambda>t. \<not> isPunctuation t) (take (len - length acc) (drop j tokens))"
proof (induction tokens len j acc rule: collectTokens.induct)
  case (1 tokens len j acc)
  show ?case
  proof (cases "j < length tokens \<and> length acc < len")
    case False
    then show ?thesis by (subst collectTokens.simps) auto
  next
    case True
    then have d: "drop j tokens = tokens ! j # drop (Suc j) tokens"
      by (simp add: Cons_nth_drop_Suc)
    from True obtain k where k: "len - length acc = Suc k"
      by (metis Suc_diff_Suc)
    show ?thesis
    proof (cases "isPunctuation (tokens ! j)")
      case True
      with \<open>j < length tokens \<and> length acc < len\<close> show ?thesis
        by (subst collectTokens.simps) (simp add: d k)
    next
      case False
      have "collectTokens tokens len (j + 1) (acc @ [tokens ! j]) =
            (acc @ [tokens ! j]) @ takeWhile (\<lambda>t. \<not> isPunctuation t)
               (take (len - length (acc @ [tokens ! j])) (drop (j + 1) tokens))"
        using "1.IH" True False by simp
      moreover have "len - length (acc @ [tokens ! j]) = k" using k by simp
      ultimately show ?thesis using True False
        by (subst collectTokens.simps) (simp add: d k)
    qed
  qed
qed

lemma takeWhile_full_length:
  "length (takeWhile P xs) = length xs \<longleftrightarrow> list_all P xs"
  by (induction xs) (auto simp: le_Suc_eq dest: length_takeWhile_le [THEN le_trans, of _ _ "n" for n])

lemma collectTokens_full:
  "0 < L \<Longrightarrow> length (collectTokens tokens L i []) = L \<longleftrightarrow>
     i + L \<le> length tokens \<and> list_all (\<lambda>t. \<not> isPunctuation t) (take L (drop i tokens))"
proof -
  define xs where "xs = take L (drop i tokens)"
  let ?P = "\<lambda>t. \<not> isPunctuation t"
  have le: "length (takeWhile ?P xs) \<le> length xs" by (rule length_takeWhile_le)
  have lx: "length xs = min L (length tokens - i)" by (simp add: xs_def)
  have c: "collectTokens tokens L i [] = takeWhile ?P xs"
    by (simp add: collectTokens_eq xs_def)
  assume pos: "0 < L"
  show ?thesis unfolding c xs_def [symmetric]
  proof
    assume a: "length (takeWhile ?P xs) = L"
    with le lx have "length xs = L" by linarith
    with a have "length (takeWhile ?P xs) = length xs" by simp
    then have "list_all ?P xs" by (simp only: takeWhile_full_length)
    moreover have "i + L \<le> length tokens" using \<open>length xs = L\<close> lx pos by linarith
    ultimately show "i + L \<le> length tokens \<and> list_all ?P xs" by simp
  next
    assume b: "i + L \<le> length tokens \<and> list_all ?P xs"
    then have "length xs = L" using lx by linarith
    moreover have "length (takeWhile ?P xs) = length xs"
      using b by (simp only: takeWhile_full_length)
    ultimately show "length (takeWhile ?P xs) = L" by simp
  qed
qed

lemma collectTokens_take:
  "0 < L \<Longrightarrow> length (collectTokens tokens L i []) = L \<Longrightarrow>
     collectTokens tokens L i [] = take L (drop i tokens)"
proof -
  assume "0 < L" "length (collectTokens tokens L i []) = L"
  then have "list_all (\<lambda>t. \<not> isPunctuation t) (take L (drop i tokens))"
    by (simp only: collectTokens_full)
  then show ?thesis by (simp add: collectTokens_eq list_all_iff)
qed

lemma tryLengths_Suc:
  "tryLengths m tokens i (Suc k) =
     (if i + Suc k \<le> length tokens \<and>
         list_all (\<lambda>t. \<not> isPunctuation t) (take (Suc k) (drop i tokens)) \<and>
         phraseAvailable m (phraseAt tokens i (Suc k))
      then (Some (phraseAt tokens i (Suc k)), Suc k)
      else tryLengths m tokens i k)"
proof (cases "length (collectTokens tokens (Suc k) i []) = Suc k")
  case True
  then have t: "collectTokens tokens (Suc k) i [] = take (Suc k) (drop i tokens)"
    by (rule collectTokens_take [rotated]) simp
  from True have f: "i + Suc k \<le> length tokens \<and>
      list_all (\<lambda>t. \<not> isPunctuation t) (take (Suc k) (drop i tokens))"
    using collectTokens_full [of "Suc k" tokens i] by simp
  show ?thesis
    using f True by (simp add: Let_def phraseAt_def t [symmetric])
next
  case False
  then have f: "\<not> (i + Suc k \<le> length tokens \<and>
      list_all (\<lambda>t. \<not> isPunctuation t) (take (Suc k) (drop i tokens)))"
    using collectTokens_full [of "Suc k" tokens i] by simp
  show ?thesis
    using f False by (auto simp: Let_def)
qed

lemma matchable_Suc:
  "Suc k \<le> maxPhraseLength \<Longrightarrow>
     matchable m tokens i (Suc k) \<longleftrightarrow>
       (i + Suc k \<le> length tokens \<and>
        list_all (\<lambda>t. \<not> isPunctuation t) (take (Suc k) (drop i tokens)) \<and>
        phraseAvailable m (phraseAt tokens i (Suc k)))"
  unfolding matchable_def by simp

lemma tryLengths_Some:
  "tryLengths m tokens i k = (Some c, n) \<Longrightarrow> k \<le> maxPhraseLength \<Longrightarrow>
     matchable m tokens i n \<and> c = phraseAt tokens i n \<and> n \<le> k \<and>
     (\<forall>L. n < L \<and> L \<le> k \<longrightarrow> \<not> matchable m tokens i L)"
proof (induction k)
  case 0
  then show ?case by simp
next
  case (Suc k)
  note ms = matchable_Suc [OF Suc.prems(2), of m tokens i]
  show ?case
  proof (cases "matchable m tokens i (Suc k)")
    case True
    then have "tryLengths m tokens i (Suc k) = (Some (phraseAt tokens i (Suc k)), Suc k)"
      by (simp add: tryLengths_Suc ms del: tryLengths.simps)
    with Suc.prems(1) have "c = phraseAt tokens i (Suc k)" "n = Suc k" by simp_all
    with True show ?thesis by auto
  next
    case False
    then have "tryLengths m tokens i (Suc k) = tryLengths m tokens i k"
      by (auto simp: tryLengths_Suc ms simp del: tryLengths.simps)
    with Suc.prems have "tryLengths m tokens i k = (Some c, n)" "k \<le> maxPhraseLength"
      by simp_all
    from Suc.IH [OF this] False show ?thesis
      by (auto simp: le_Suc_eq)
  qed
qed

lemma tryLengths_None:
  "tryLengths m tokens i k = (None, n) \<Longrightarrow> k \<le> maxPhraseLength \<Longrightarrow>
     (\<forall>L. L \<le> k \<longrightarrow> \<not> matchable m tokens i L)"
proof (induction k)
  case 0
  then show ?case by (simp add: matchable_def)
next
  case (Suc k)
  note ms = matchable_Suc [OF Suc.prems(2), of m tokens i]
  show ?case
  proof (cases "matchable m tokens i (Suc k)")
    case True
    then have "tryLengths m tokens i (Suc k) = (Some (phraseAt tokens i (Suc k)), Suc k)"
      by (simp add: tryLengths_Suc ms del: tryLengths.simps)
    with Suc.prems(1) show ?thesis by simp
  next
    case False
    then have "tryLengths m tokens i (Suc k) = tryLengths m tokens i k"
      by (auto simp: tryLengths_Suc ms simp del: tryLengths.simps)
    with Suc.prems have "tryLengths m tokens i k = (None, n)" "k \<le> maxPhraseLength"
      by simp_all
    from Suc.IH [OF this] False show ?thesis
      by (auto simp: le_Suc_eq)
  qed
qed

subsection \<open>The outer loop, one case at a time\<close>

lemma greedyLoop_done: "\<not> i < length tokens \<Longrightarrow> greedyLoop m tokens i acc = acc"
  by (subst greedyLoop.simps) simp

lemma greedyLoop_punct:
  "i < length tokens \<Longrightarrow> isPunctuation (tokens ! i) \<Longrightarrow>
     greedyLoop m tokens i acc = greedyLoop m tokens (i + 1) acc"
  by (subst greedyLoop.simps) simp

lemma greedyLoop_miss:
  "i < length tokens \<Longrightarrow> \<not> isPunctuation (tokens ! i) \<Longrightarrow>
   tryLengths m tokens i (min maxPhraseLength (length tokens - i)) = (None, n) \<Longrightarrow>
     greedyLoop m tokens i acc = greedyLoop m tokens (i + 1) acc"
  by (subst greedyLoop.simps) simp

lemma greedyLoop_empty:
  "i < length tokens \<Longrightarrow> \<not> isPunctuation (tokens ! i) \<Longrightarrow>
   tryLengths m tokens i (min maxPhraseLength (length tokens - i)) = (Some [], n) \<Longrightarrow>
     greedyLoop m tokens i acc = greedyLoop m tokens (i + 1) acc"
  by (subst greedyLoop.simps) simp

lemma greedyLoop_hit:
  "i < length tokens \<Longrightarrow> \<not> isPunctuation (tokens ! i) \<Longrightarrow>
   tryLengths m tokens i (min maxPhraseLength (length tokens - i)) = (Some c, n) \<Longrightarrow>
   c \<noteq> [] \<Longrightarrow>
     greedyLoop m tokens i acc =
       greedyLoop m tokens (i + n) (acc @ [\<lparr>phrase = c, start = i, end_idx = i + n\<rparr>])"
  by (subst greedyLoop.simps) simp

lemma matchable_not_punct:
  assumes "matchable m tokens i L"
  shows "\<not> isPunctuation (tokens ! i)"
proof -
  from assms have "i < length tokens" "0 < L" by (auto simp: matchable_def)
  then have "take L (drop i tokens) = tokens ! i # take (L - 1) (drop (Suc i) tokens)"
    by (cases L) (simp_all add: Cons_nth_drop_Suc [symmetric])
  with assms show ?thesis by (simp add: matchable_def)
qed

lemma joinWith_Nil: "joinWith sep (x # xs) = [] \<Longrightarrow> x = []"
  by (cases xs) simp_all

lemma phraseAt_Nil:
  assumes "0 < n" "i + n \<le> length tokens" "phraseAt tokens i n = []"
  shows "tokens ! i = []"
proof -
  from assms have "take n (drop i tokens) = tokens ! i # take (n - 1) (drop (Suc i) tokens)"
    by (cases n) (simp_all add: Cons_nth_drop_Suc [symmetric])
  with assms(3) show ?thesis by (auto simp: phraseAt_def dest: joinWith_Nil)
qed

lemma gpost_done: "\<not> i < length tokens \<Longrightarrow> gpost m tokens i []"
  by (auto simp: gpost_def)

lemma gpost_skip:
  assumes "gpost m tokens (i + 1) new" "tokens ! i \<noteq> [] \<Longrightarrow> \<forall>L. \<not> matchable m tokens i L"
  shows "gpost m tokens i new"
  unfolding gpost_def
proof (intro conjI allI impI ballI)
  show "sorted_wrt (\<lambda>a b. end_idx a \<le> start b) new" using assms(1) by (simp add: gpost_def)
next
  fix mt assume "mt \<in> set new"
  with assms(1) have "i + 1 \<le> start mt" by (simp add: gpost_def)
  then show "i \<le> start mt" by simp
next
  fix mt assume "mt \<in> set new"
  with assms(1) show "end_idx mt \<le> length tokens" "phrase mt \<noteq> []" "longestMatch m tokens mt"
    by (simp_all add: gpost_def)
next
  fix j L
  assume j: "i \<le> j \<and> j < length tokens \<and> \<not> coveredBy new j \<and> tokens ! j \<noteq> []"
  show "\<not> matchable m tokens j L"
  proof (cases "j = i")
    case True
    with j assms(2) show ?thesis by simp
  next
    case False
    with j have "i + 1 \<le> j" by simp
    with j assms(1) show ?thesis unfolding gpost_def by blast
  qed
qed

lemma gpost_hit:
  assumes g: "gpost m tokens (i + n) new"
    and n: "0 < n" "i + n \<le> length tokens"
    and c: "c \<noteq> []"
    and l: "longestMatch m tokens \<lparr>phrase = c, start = i, end_idx = i + n\<rparr>"
  shows "gpost m tokens i (\<lparr>phrase = c, start = i, end_idx = i + n\<rparr> # new)"
  unfolding gpost_def
proof (intro conjI allI impI ballI)
  show "sorted_wrt (\<lambda>a b. end_idx a \<le> start b) (\<lparr>phrase = c, start = i, end_idx = i + n\<rparr> # new)"
    using g by (simp add: gpost_def)
next
  fix mt assume mt: "mt \<in> set (\<lparr>phrase = c, start = i, end_idx = i + n\<rparr> # new)"
  then consider "mt = \<lparr>phrase = c, start = i, end_idx = i + n\<rparr>" | "mt \<in> set new" by auto
  then have "i \<le> start mt \<and> end_idx mt \<le> length tokens \<and> phrase mt \<noteq> [] \<and> longestMatch m tokens mt"
  proof cases
    case 1
    with n c l show ?thesis by simp
  next
    case 2
    with g have "i + n \<le> start mt \<and> end_idx mt \<le> length tokens \<and> phrase mt \<noteq> [] \<and> longestMatch m tokens mt"
      by (simp add: gpost_def)
    then show ?thesis by simp
  qed
  then show "i \<le> start mt" "end_idx mt \<le> length tokens" "phrase mt \<noteq> []" "longestMatch m tokens mt"
    by simp_all
next
  fix j L
  assume j: "i \<le> j \<and> j < length tokens \<and>
     \<not> coveredBy (\<lparr>phrase = c, start = i, end_idx = i + n\<rparr> # new) j \<and> tokens ! j \<noteq> []"
  then have "i + n \<le> j" "\<not> coveredBy new j"
    by (auto simp: coveredBy_def inMatch_def)
  with j g show "\<not> matchable m tokens j L" unfolding gpost_def by blast
qed

lemma tryLengths_hit_longest:
  assumes t: "tryLengths m tokens i (min maxPhraseLength (length tokens - i)) = (Some c, n)"
  shows "longestMatch m tokens \<lparr>phrase = c, start = i, end_idx = i + n\<rparr> \<and> 0 < n \<and>
         i + n \<le> length tokens"
proof -
  from tryLengths_Some [OF t]
  have a: "matchable m tokens i n" "c = phraseAt tokens i n" by simp_all
  have b: "\<not> matchable m tokens i L" if "n < L" for L
  proof (cases "L \<le> min maxPhraseLength (length tokens - i)")
    case True
    with tryLengths_Some [OF t] that show ?thesis by simp
  next
    case False
    then show ?thesis by (auto simp: matchable_def)
  qed
  from a(1) have "0 < n" "i + n \<le> length tokens" by (simp_all add: matchable_def)
  with a b show ?thesis by (auto simp: longestMatch_def list_all_iff)
qed

lemma tryLengths_miss:
  assumes t: "tryLengths m tokens i (min maxPhraseLength (length tokens - i)) = (None, n)"
  shows "\<not> matchable m tokens i L"
proof (cases "L \<le> min maxPhraseLength (length tokens - i)")
  case True
  with tryLengths_None [OF t] show ?thesis by simp
next
  case False
  then show ?thesis by (auto simp: matchable_def)
qed

lemma tryLengths_empty:
  assumes t: "tryLengths m tokens i (min maxPhraseLength (length tokens - i)) = (Some [], n)"
  shows "tokens ! i = []"
proof -
  from tryLengths_Some [OF t]
  have a: "matchable m tokens i n" "[] = phraseAt tokens i n" by simp_all
  from a(1) have "0 < n" "i + n \<le> length tokens" by (simp_all add: matchable_def)
  with a(2) show ?thesis by (auto intro: phraseAt_Nil)
qed

lemma greedyLoop_post: "\<exists>new. greedyLoop m tokens i acc = acc @ new \<and> gpost m tokens i new"
proof (induction m tokens i acc rule: greedyLoop.induct)
  case (1 m tokens i matches)
  let ?t = "tryLengths m tokens i (min maxPhraseLength (length tokens - i))"
  consider (stop) "\<not> i < length tokens"
    | (punct) "i < length tokens" "isPunctuation (tokens ! i)"
    | (miss) n where "i < length tokens" "\<not> isPunctuation (tokens ! i)" "?t = (None, n)"
    | (empty) n where "i < length tokens" "\<not> isPunctuation (tokens ! i)" "?t = (Some [], n)"
    | (hit) c n where "i < length tokens" "\<not> isPunctuation (tokens ! i)" "?t = (Some c, n)" "c \<noteq> []"
    by (cases ?t; cases "fst ?t"; cases "the (fst ?t) = []") auto
  then show ?case
  proof cases
    case stop
    then show ?thesis by (auto simp: greedyLoop_done gpost_done)
  next
    case punct
    from "1.IH"(1) [OF punct] obtain new where
      n: "greedyLoop m tokens (i + 1) matches = matches @ new" "gpost m tokens (i + 1) new" by blast
    have "gpost m tokens i new"
      using n(2) by (rule gpost_skip) (use punct(2) in \<open>auto dest: matchable_not_punct\<close>)
    with n(1) punct show ?thesis by (simp add: greedyLoop_punct)
  next
    case miss
    from "1.IH"(2) [OF miss(1,2) miss(3) [symmetric] refl] obtain new where
      n: "greedyLoop m tokens (i + 1) matches = matches @ new" "gpost m tokens (i + 1) new" by blast
    have "gpost m tokens i new"
      using n(2) by (rule gpost_skip) (simp add: tryLengths_miss [OF miss(3)])
    with n(1) miss show ?thesis by (simp add: greedyLoop_miss)
  next
    case empty
    from "1.IH"(4) [OF empty(1,2) empty(3) [symmetric] refl] obtain new where
      n: "greedyLoop m tokens (i + 1) matches = matches @ new" "gpost m tokens (i + 1) new" by auto
    have "gpost m tokens i new"
      using n(2) by (rule gpost_skip) (simp add: tryLengths_empty [OF empty(3)])
    with n(1) empty show ?thesis by (simp add: greedyLoop_empty)
  next
    case hit
    let ?mt = "\<lparr>phrase = c, start = i, end_idx = i + n\<rparr>"
    from "1.IH"(3) [OF hit(1,2) hit(3) [symmetric] refl hit(4)] obtain new where
      n: "greedyLoop m tokens (i + n) (matches @ [?mt]) = (matches @ [?mt]) @ new"
         "gpost m tokens (i + n) new" by blast
    from tryLengths_hit_longest [OF hit(3)] n(2) hit(4)
    have "gpost m tokens i (?mt # new)" by (auto intro: gpost_hit)
    with n(1) hit show ?thesis by (simp add: greedyLoop_hit)
  qed
qed

lemma greedyMatchPhrases_post: "gpost m tokens 0 (greedyMatchPhrases m tokens)"
  using greedyLoop_post [of m tokens 0 "[]"] by (auto simp: greedyMatchPhrases_def)






subsection \<open>Evaluating the matcher on concrete tokens\<close>

lemmas char_simps = js_def isPunctuation_def isWordChar_def isSpaceChar_def

lemma tryLengths_numeral:
  "tryLengths m tokens i (numeral k) =
     (if length (collectTokens tokens (numeral k) i []) \<noteq> numeral k
      then tryLengths m tokens i (pred_numeral k)
      else if phraseAvailable m (joinWith (js '' '') (collectTokens tokens (numeral k) i []))
        then (Some (joinWith (js '' '') (collectTokens tokens (numeral k) i [])), numeral k)
        else tryLengths m tokens i (pred_numeral k))"
  by (simp add: numeral_eq_Suc Let_def)

lemma tryLengths_one:
  "tryLengths m tokens i 1 =
     (if length (collectTokens tokens 1 i []) \<noteq> 1 then (None, 0)
      else if phraseAvailable m (joinWith (js '' '') (collectTokens tokens 1 i []))
        then (Some (joinWith (js '' '') (collectTokens tokens 1 i [])), 1)
        else (None, 0))"
  by (simp add: Let_def)

lemmas lookup_simps = getProp_def inheritedMember_def prototypeFunctions_def truthyFlag_def

lemmas eval_simps = tryLengths_numeral tryLengths_one collectTokens.simps phraseAvailable_def
  maxPhraseLength_def char_simps lookup_simps

lemma greedy_exampleTokens:
  "greedyMatchPhrases exampleManifest exampleTokens =
     [\<lparr>phrase = js ''hello world'', start = 0, end_idx = 2\<rparr>,
      \<lparr>phrase = js ''good morning'', start = 3, end_idx = 5\<rparr>]"
  by (simp add: greedyMatchPhrases_def greedyLoop.simps eval_simps exampleManifest_def
        exampleTokens_def)

text \<open>
  A token that is the empty string is not punctuation; its candidate of length one is
  the empty string, which \<^verbatim>\<open>if (bestMatch)\<close> takes for no match, so it stays unmatched
  even where the manifest has the empty phrase with clips. The tokenizer returns no
  such token.
\<close>

lemma greedy_empty_token_unmatched:
  "phraseAvailable m [] \<Longrightarrow> matchable m [[]] 0 1 \<and> greedyMatchPhrases m [[]] = []"
proof -
  assume a: "phraseAvailable m []"
  have np: "\<not> isPunctuation []" by (simp add: isPunctuation_def)
  have t: "tryLengths m [[]] 0 (min maxPhraseLength (length [[] :: jsstring] - 0)) = (Some [], 1)"
    using a np by (simp add: maxPhraseLength_def tryLengths_one collectTokens.simps)
  have "greedyLoop m [[]] 0 [] = greedyLoop m [[]] (0 + 1) []"
    by (rule greedyLoop_empty [OF _ _ t]) (simp_all add: np)
  then have "greedyMatchPhrases m [[]] = []"
    by (simp add: greedyMatchPhrases_def greedyLoop_done)
  moreover have "matchable m [[]] 0 1"
    using a np by (simp add: matchable_def phraseAt_def maxPhraseLength_def)
  ultimately show ?thesis by simp
qed

lemma matchTokens_nonempty: "[] \<notin> set (matchTokens s)"
  by (induction s rule: matchTokens.induct) auto

subsection \<open>Longest match first\<close>



subsection \<open>Matches are disjoint and in order\<close>

text \<open>
  Claim C2. For every manifest and token list, each returned match has
  \<open>start < end\<close>, no index lies in the ranges of two different returned matches, and the
  matches are in strictly increasing order of \<open>start\<close>.
\<close>

theorem greedy_matches_disjoint_sorted:
  "(\<forall>mt \<in> set (greedyMatchPhrases m tokens). start mt < end_idx mt) \<and>
   (\<forall>a b k. a < length (greedyMatchPhrases m tokens) \<and> b < length (greedyMatchPhrases m tokens) \<and>
       a \<noteq> b \<longrightarrow>
       \<not> (inMatch (greedyMatchPhrases m tokens ! a) k \<and> inMatch (greedyMatchPhrases m tokens ! b) k)) \<and>
   sorted_wrt (\<lambda>x y. start x < start y) (greedyMatchPhrases m tokens)"
proof -
  define ms where "ms = greedyMatchPhrases m tokens"
  have g: "gpost m tokens 0 ms" unfolding ms_def by (rule greedyMatchPhrases_post)
  then have s: "sorted_wrt (\<lambda>a b. end_idx a \<le> start b) ms"
    and p: "\<And>mt. mt \<in> set ms \<Longrightarrow> start mt < end_idx mt"
    by (simp_all add: gpost_def longestMatch_def)
  have lt: "end_idx (ms ! a) \<le> start (ms ! b)" if "a < b" "b < length ms" for a b
    using s that by (rule sorted_wrt_nth_less)
  have dis: "\<not> (inMatch (ms ! a) k \<and> inMatch (ms ! b) k)"
    if "a < length ms" "b < length ms" "a \<noteq> b" for a b k
  proof (cases "a < b")
    case True
    from lt [OF True that(2)] show ?thesis by (auto simp: inMatch_def)
  next
    case False
    with that have "b < a" by simp
    from lt [OF this that(1)] show ?thesis by (auto simp: inMatch_def)
  qed
  have "sorted_wrt (\<lambda>x y. start x < start y) ms"
    unfolding sorted_wrt_iff_nth_less
  proof (intro allI impI)
    fix a b assume ab: "a < b" "b < length ms"
    then have "ms ! a \<in> set ms" by simp
    from p [OF this] lt [OF ab] show "start (ms ! a) < start (ms ! b)" by simp
  qed
  with p dis show ?thesis unfolding ms_def [symmetric] by blast
qed

theorem greedy_matches_disjoint_sorted_witness:
  "greedyMatchPhrases exampleManifest exampleTokens =
     [\<lparr>phrase = js ''hello world'', start = 0, end_idx = 2\<rparr>,
      \<lparr>phrase = js ''good morning'', start = 3, end_idx = 5\<rparr>] \<and>
   sorted_wrt (\<lambda>x y. start x < start y) (greedyMatchPhrases exampleManifest exampleTokens) \<and>
   \<not> (inMatch (greedyMatchPhrases exampleManifest exampleTokens ! 0) 1 \<and>
      inMatch (greedyMatchPhrases exampleManifest exampleTokens ! 1) 1)"
proof -
  note th = greedy_matches_disjoint_sorted [of exampleManifest exampleTokens]
  have l: "(0::nat) < length (greedyMatchPhrases exampleManifest exampleTokens) \<and>
           1 < length (greedyMatchPhrases exampleManifest exampleTokens) \<and> (0::nat) \<noteq> 1"
    by (simp add: greedy_exampleTokens)
  with th have "\<not> (inMatch (greedyMatchPhrases exampleManifest exampleTokens ! 0) 1 \<and>
      inMatch (greedyMatchPhrases exampleManifest exampleTokens ! 1) 1)" by blast
  with th greedy_exampleTokens show ?thesis by blast
qed

section \<open>Properties of the clip selector\<close>

lemma selectClip_None_iff:
  "fst (selectClip rt availableClips usedClips seedStr) = None \<longleftrightarrow>
     (availableClips = None \<or> availableClips = Some [])"
  by (auto simp: selectClip_def Let_def split: option.splits)

lemma selectClip_in_pool:
  assumes "clips \<noteq> []"
  shows "\<exists>c \<in> set clips. fst (selectClip rt (Some clips) usedClips seedStr) = Some c"
proof -
  define unused where "unused = filter (\<lambda>clip. filename clip \<notin> usedClips) clips"
  define pool where "pool = (if length unused > 0 then unused else clips)"
  have "pool \<noteq> []" using assms by (auto simp: pool_def)
  then have "md5Prefix rt seedStr mod length pool < length pool" by simp
  then have "pool ! (md5Prefix rt seedStr mod length pool) \<in> set pool" by (rule nth_mem)
  moreover have "set pool \<subseteq> set clips" by (auto simp: pool_def unused_def)
  moreover have "fst (selectClip rt (Some clips) usedClips seedStr) =
      Some (pool ! (md5Prefix rt seedStr mod length pool))"
    using assms by (simp add: selectClip_def Let_def pool_def unused_def)
  ultimately show ?thesis by auto
qed

lemma selectClip_exhausted:
  assumes "clips \<noteq> []" "\<forall>c \<in> set clips. filename c \<in> usedClips"
  shows "fst (selectClip rt (Some clips) usedClips seedStr) =
           Some (clips ! (md5Prefix rt seedStr mod length clips))"
proof -
  have "filter (\<lambda>clip. filename clip \<notin> usedClips) clips = []"
    using assms(2) by (simp add: filter_empty_conv)
  with assms(1) show ?thesis by (simp add: selectClip_def Let_def)
qed

text \<open>
  Claim C5. \<^verbatim>\<open>selectClip\<close> returns \<^verbatim>\<open>null\<close> exactly when the pool is missing or empty. From
  a non-empty pool it returns one of the pool's clips; when every clip of the pool has
  its filename in \<^verbatim>\<open>usedClips\<close>, the unused sub-pool is empty and the clip is taken from
  the whole pool, at the seeded index.
\<close>

theorem selectClip_null_iff_empty:
  "(fst (selectClip rt availableClips usedClips seedStr) = None \<longleftrightarrow>
      (availableClips = None \<or> availableClips = Some [])) \<and>
   (\<forall>clips. availableClips = Some clips \<and> clips \<noteq> [] \<longrightarrow>
      (\<exists>c \<in> set clips. fst (selectClip rt availableClips usedClips seedStr) = Some c)) \<and>
   (\<forall>clips. availableClips = Some clips \<and> clips \<noteq> [] \<and>
        (\<forall>c \<in> set clips. filename c \<in> usedClips) \<longrightarrow>
      fst (selectClip rt availableClips usedClips seedStr) =
        Some (clips ! (md5Prefix rt seedStr mod length clips)))"
  using selectClip_None_iff [of rt availableClips usedClips seedStr]
  by (auto simp: selectClip_exhausted dest: selectClip_in_pool)

theorem selectClip_null_iff_empty_witness:
  "fst (selectClip exampleRuntime (Some examplePool)
          {js ''gm1.ts'', js ''gm2.ts'', js ''gm3.ts''} (js ''abcgood morning'')) =
     Some \<lparr>filename = js ''gm2.ts'', duration = 1300\<rparr> \<and>
   fst (selectClip exampleRuntime (Some []) {} (js ''abcgood morning'')) = None"
proof -
  let ?used = "{js ''gm1.ts'', js ''gm2.ts'', js ''gm3.ts''}"
  note th = selectClip_null_iff_empty [of exampleRuntime "Some examplePool" ?used "js ''abcgood morning''"]
  have h: "Some examplePool = Some examplePool \<and> examplePool \<noteq> [] \<and>
      (\<forall>c \<in> set examplePool. filename c \<in> ?used)"
    by (simp add: examplePool_def js_def)
  have i: "examplePool ! (md5Prefix exampleRuntime (js ''abcgood morning'') mod length examplePool)
      = \<lparr>filename = js ''gm2.ts'', duration = 1300\<rparr>"
    by (simp add: examplePool_def exampleRuntime_def exampleHash_def js_def)
  from th h have "fst (selectClip exampleRuntime (Some examplePool) ?used (js ''abcgood morning'')) =
        Some (examplePool ! (md5Prefix exampleRuntime (js ''abcgood morning'') mod length examplePool))"
    by blast
  with i have a: "fst (selectClip exampleRuntime (Some examplePool) ?used (js ''abcgood morning'')) =
     Some \<lparr>filename = js ''gm2.ts'', duration = 1300\<rparr>" by simp
  have b: "fst (selectClip exampleRuntime (Some []) {} (js ''abcgood morning'')) = None"
    using selectClip_null_iff_empty [of exampleRuntime "Some []" "{}" "js ''abcgood morning''"]
    by blast
  from a b show ?thesis by simp
qed

section \<open>Properties of the static fallback\<close>

lemma orElse_Missing [simp]: "orElse v Missing = v"
  by (cases v) (simp_all add: orElse_def)

lemma getStaticClip_punct:
  "isPunctuation token \<Longrightarrow>
     getStaticClip m token =
       orElse (optIndex (punctuation (staticClips m))
                 (if token = [0x2014] \<or> token = [0x2013] then [0x2D] else token))
              (optIndex (punctuation (staticClips m)) (js ''.''))"
  by (auto simp: getStaticClip_def Let_def)

lemma getStaticClip_word:
  "\<not> isPunctuation token \<Longrightarrow>
     getStaticClip m token = optIndex (words (staticClips m)) (slugify token)"
  by (auto simp: getStaticClip_def Let_def split: jsvalue.splits)

text \<open>
  Claim C7, at a token the source does not fold. The manifest has a clip for the straight
  double quote and one for the period. For the token made of the left curly double
  quote U+201C, \<^verbatim>\<open>getStaticClip\<close> returns the period's clip: the comparisons that should
  fold curly quotes compare with the straight quote only, so the token is looked up as
  it is, and the default is used.
\<close>

theorem getStaticClip_curly_quote_default:
  "getStaticClip exampleManifest [0x201C] = Own \<lparr>filename = js ''period.ts'', duration = 150\<rparr> \<and>
   optIndex (punctuation (staticClips exampleManifest)) [0x22] =
     Own \<lparr>filename = js ''quote.ts'', duration = 100\<rparr>"
  by (simp add: getStaticClip_def isPunctuation_def isWordChar_def isSpaceChar_def Let_def
        orElse_def optIndex_def exampleManifest_def js_def lookup_simps)

text \<open>
  In the word branch a slug that names a member of \<^verbatim>\<open>Object.prototype\<close>, with no clip of
  its own, gets that member: for the token \<^verbatim>\<open>constructor\<close> the function \<^verbatim>\<open>Object\<close>, for
  \<^verbatim>\<open>__proto__\<close> the prototype itself.
\<close>

lemma getStaticClip_inherited:
  "getStaticClip exampleManifest (js ''constructor'') = ProtoFunction 1 \<and>
   getStaticClip exampleManifest (js ''__proto__'') = ProtoObject"
  by (simp add: getStaticClip_def isPunctuation_def isWordChar_def isSpaceChar_def Let_def
        slugify_def optIndex_def exampleManifest_def js_def lookup_simps)

text \<open>A match covers no punctuation token.\<close>

lemma matched_range_not_punct:
  assumes "matchable m tokens s L" "s \<le> j" "j < s + L"
  shows "\<not> isPunctuation (tokens ! j)"
proof -
  from assms(1) have a: "list_all (\<lambda>t. \<not> isPunctuation t) (take L (drop s tokens))"
    and b: "s + L \<le> length tokens" by (simp_all add: matchable_def)
  from assms(2,3) b have "take L (drop s tokens) ! (j - s) = tokens ! j" by simp
  moreover from assms(2,3) b have "j - s < length (take L (drop s tokens))" by simp
  ultimately show ?thesis using a by (metis list_all_length)
qed

lemma covered_not_punct:
  assumes "coveredBy (greedyMatchPhrases m tokens) j"
  shows "\<not> isPunctuation (tokens ! j)"
proof -
  from assms obtain mt where mt: "mt \<in> set (greedyMatchPhrases m tokens)" "inMatch mt j"
    by (auto simp: coveredBy_def list_ex_iff)
  with greedyMatchPhrases_post [of m tokens] have "longestMatch m tokens mt"
    by (simp add: gpost_def)
  then have a: "matchable m tokens (start mt) (end_idx mt - start mt)" "start mt < end_idx mt"
    by (simp_all add: longestMatch_def)
  from mt(2) a(2) have b: "start mt \<le> j" "j < start mt + (end_idx mt - start mt)"
    by (simp_all add: inMatch_def)
  from a(1) b show ?thesis by (rule matched_range_not_punct)
qed

lemma matchTokens_word_run:
  assumes "token \<noteq> []" "list_all isWordRunChar token"
  shows "matchTokens token = [token]"
proof -
  from assms(1) obtain c cs where t: "token = c # cs" by (cases token) auto
  with assms(2) have "isWordRunChar c" "takeWhile isWordRunChar cs = cs"
    "dropWhile isWordRunChar cs = []"
    by (simp_all add: list_all_iff)
  then show ?thesis unfolding t by (simp del: dropWhile_eq_Nil_conv takeWhile_eq_all_conv)
qed

text \<open>
  Claim C10. A non-empty token made of apostrophes and hyphens only is one word-run
  token for the tokenizer and punctuation for \<^verbatim>\<open>greedyMatchPhrases\<close> and \<^verbatim>\<open>getStaticClip\<close>:
  wherever it stands the matcher's loop moves on to the next index with the matches
  unchanged, no returned match covers its index, and the fallback is the lookup of the
  token in \<^verbatim>\<open>staticClips.punctuation\<close> with the period's clip as default.
\<close>

theorem apostrophe_hyphen_token_is_punctuation:
  assumes "token \<noteq> []" and "set token \<subseteq> {0x27, 0x2D}"
  shows "matchTokens token = [token] \<and>
         isPunctuation token \<and>
         (\<forall>tokens i acc. i < length tokens \<and> tokens ! i = token \<longrightarrow>
            greedyLoop m tokens i acc = greedyLoop m tokens (i + 1) acc \<and>
            \<not> coveredBy (greedyMatchPhrases m tokens) i) \<and>
         getStaticClip m token =
           orElse (optIndex (punctuation (staticClips m)) token)
                  (optIndex (punctuation (staticClips m)) (js ''.''))"
proof -
  from assms(2) have w: "list_all isWordRunChar token"
    by (auto simp: list_all_iff isWordRunChar_def)
  from assms have p: "isPunctuation token"
    by (auto simp: isPunctuation_def list_all_iff isWordChar_def isSpaceChar_def)
  from assms(2) have d: "token \<noteq> [0x2014]" "token \<noteq> [0x2013]" by auto
  have "getStaticClip m token =
          orElse (optIndex (punctuation (staticClips m)) token)
                 (optIndex (punctuation (staticClips m)) (js ''.''))"
    using d by (simp add: getStaticClip_punct [OF p])
  moreover have "greedyLoop m tokens i acc = greedyLoop m tokens (i + 1) acc \<and>
            \<not> coveredBy (greedyMatchPhrases m tokens) i"
    if "i < length tokens \<and> tokens ! i = token" for tokens i acc
    using that p by (auto simp: greedyLoop_punct dest: covered_not_punct)
  ultimately show ?thesis using matchTokens_word_run [OF assms(1) w] p by blast
qed

theorem apostrophe_hyphen_token_is_punctuation_witness:
  "[0x2D, 0x2D] \<noteq> ([] :: jsstring) \<and> set [0x2D, 0x2D] \<subseteq> {0x27, 0x2D :: jschar} \<and>
   matchTokens [0x2D, 0x2D] = [[0x2D, 0x2D]] \<and>
   isPunctuation [0x2D, 0x2D] \<and>
   \<not> coveredBy (greedyMatchPhrases exampleManifest [js ''good'', [0x2D, 0x2D], js ''morning'']) 1 \<and>
   getStaticClip exampleManifest [0x2D, 0x2D] = Own \<lparr>filename = js ''period.ts'', duration = 150\<rparr>"
proof -
  have a: "[0x2D, 0x2D] \<noteq> ([] :: jsstring)" "set [0x2D, 0x2D] \<subseteq> {0x27, 0x2D :: jschar}"
    by simp_all
  note th = apostrophe_hyphen_token_is_punctuation [OF a, of exampleManifest]
  have l: "1 < length [js ''good'', [0x2D, 0x2D], js ''morning''] \<and>
           [js ''good'', [0x2D, 0x2D], js ''morning''] ! 1 = [0x2D, 0x2D]" by simp
  with th have c: "\<not> coveredBy (greedyMatchPhrases exampleManifest [js ''good'', [0x2D, 0x2D], js ''morning'']) 1"
    by blast
  have "orElse (optIndex (punctuation (staticClips exampleManifest)) [0x2D, 0x2D])
                  (optIndex (punctuation (staticClips exampleManifest)) (js ''.'')) =
        Own \<lparr>filename = js ''period.ts'', duration = 150\<rparr>"
    by (simp add: orElse_def optIndex_def exampleManifest_def js_def lookup_simps)
  with th have g: "getStaticClip exampleManifest [0x2D, 0x2D] =
      Own \<lparr>filename = js ''period.ts'', duration = 150\<rparr>" by simp
  from th a c g show ?thesis by simp
qed

section \<open>Properties of the normalizer\<close>

lemmas token_simps = isWordRunChar_def isSingleChar_def isWordChar_def isSpaceChar_def

lemma matchTokens_cafeFolded:
  "matchTokens cafeFolded = [js ''cafe'' @ [0x27] @ js ''s'', [0x22], js ''quote'', [0x22]]"
  by (simp add: cafeFolded_def js_def token_simps)

text \<open>
  Claim C8. Where the runtime decomposes the accented letter U+00E9 of the input into
  \<^verbatim>\<open>e\<close> and U+0301 and lower-casing leaves the folded text as it is, as Unicode has it, the
  text \<^verbatim>\<open>cafe's "quote"\<close> (its \<^verbatim>\<open>e\<close> accented) is normalized to the four tokens \<^verbatim>\<open>cafe's\<close>,
  \<^verbatim>\<open>"\<close>, \<^verbatim>\<open>quote\<close>, \<^verbatim>\<open>"\<close>; so is the same text written with curly quotes.
\<close>

theorem normalize_cafe_quote:
  assumes "normalizeNFD rt cafeInput = cafeDecomposed"
    and "toLowerCase rt cafeFolded = cafeFolded"
  shows "normalizeAndTokenize rt cafeInput =
           [js ''cafe'' @ [0x27] @ js ''s'', [0x22], js ''quote'', [0x22]] \<and>
         normalizeAndTokenize rt cafeInputCurly =
           [js ''cafe'' @ [0x27] @ js ''s'', [0x22], js ''quote'', [0x22]]"
proof -
  have q: "foldl (\<lambda>t (oldChar, newChar). replaceAll oldChar newChar t)
             (removeChar 0x200D (removeChar 0x200C (removeChar 0x200B (removeChar 0xFEFF cafeInput))))
             quoteMap = cafeInput"
    by (simp add: cafeInput_def quoteMap_def replaceAll_def removeChar_def js_def)
  have qc: "foldl (\<lambda>t (oldChar, newChar). replaceAll oldChar newChar t)
             (removeChar 0x200D (removeChar 0x200C (removeChar 0x200B (removeChar 0xFEFF cafeInputCurly))))
             quoteMap = cafeInput"
    by (simp add: cafeInput_def cafeInputCurly_def quoteMap_def replaceAll_def removeChar_def js_def)
  have s: "filter (\<lambda>c. \<not> (0x300 \<le> c \<and> c \<le> 0x36F)) cafeDecomposed = cafeFolded"
    by (simp add: cafeDecomposed_def cafeFolded_def js_def)
  show ?thesis
    unfolding normalizeAndTokenize_def Let_def q qc assms(1) s assms(2) matchTokens_cafeFolded
    by simp
qed

theorem normalize_cafe_quote_witness:
  "normalizeNFD exampleRuntime cafeInput = cafeDecomposed \<and>
   toLowerCase exampleRuntime cafeFolded = cafeFolded \<and>
   normalizeAndTokenize exampleRuntime cafeInput =
     [js ''cafe'' @ [0x27] @ js ''s'', [0x22], js ''quote'', [0x22]]"
proof -
  have a: "normalizeNFD exampleRuntime cafeInput = cafeDecomposed"
    by (simp add: exampleRuntime_def cafeInput_def cafeDecomposed_def js_def decomposeChar_def
          latin1Decomposition_def)
  have b: "toLowerCase exampleRuntime cafeFolded = cafeFolded"
    by (simp add: exampleRuntime_def cafeFolded_def js_def lowerChar_def)
  from normalize_cafe_quote [OF a b] a b show ?thesis by simp
qed

section \<open>Properties of the script builder\<close>

subsection \<open>Matches that are disjoint and in order\<close>

lemma greedy_wellFormed: "wellFormedMatches (length tokens) (greedyMatchPhrases m tokens)"
  using greedyMatchPhrases_post [of m tokens]
  by (auto simp: wellFormedMatches_def gpost_def list_all_iff longestMatch_def)

lemma wf_pairwise:
  assumes "wellFormedMatches n ms" "a \<in> set ms" "b \<in> set ms"
  shows "a = b \<or> end_idx a \<le> start b \<or> end_idx b \<le> start a"
proof -
  from assms(1) have s: "sorted_wrt (\<lambda>a b. end_idx a \<le> start b) ms"
    by (simp add: wellFormedMatches_def)
  from assms(2,3) obtain ia ib where i: "ia < length ms" "ms ! ia = a" "ib < length ms" "ms ! ib = b"
    by (auto simp: in_set_conv_nth)
  consider "ia < ib" | "ib < ia" | "ia = ib" by linarith
  then show ?thesis
  proof cases
    case 1
    from sorted_wrt_nth_less [OF s 1 i(3)] i show ?thesis by simp
  next
    case 2
    from sorted_wrt_nth_less [OF s 2 i(1)] i show ?thesis by simp
  next
    case 3
    with i show ?thesis by simp
  qed
qed

lemma wf_bounds:
  "wellFormedMatches n ms \<Longrightarrow> mt \<in> set ms \<Longrightarrow> start mt < end_idx mt \<and> end_idx mt \<le> n"
  by (simp add: wellFormedMatches_def list_all_iff)

lemma isStart_iff: "isStart ms i \<longleftrightarrow> (\<exists>mt \<in> set ms. start mt = i)"
  by (auto simp: isStart_def find_None_iff)

lemma coveredBy_iff: "coveredBy ms i \<longleftrightarrow> (\<exists>mt \<in> set ms. start mt \<le> i \<and> i < end_idx mt)"
  by (auto simp: coveredBy_def list_ex_iff inMatch_def)

lemma aligned_iff: "aligned ms i \<longleftrightarrow> (\<forall>mt \<in> set ms. start mt < i \<longrightarrow> end_idx mt \<le> i)"
  by (auto simp: aligned_def list_all_iff)

lemma aligned_0: "aligned ms 0"
  by (simp add: aligned_iff)

lemma aligned_after_match:
  assumes "wellFormedMatches n ms" "mt \<in> set ms"
  shows "aligned ms (end_idx mt)"
  unfolding aligned_iff
proof (intro ballI impI)
  fix b assume b: "b \<in> set ms" "start b < end_idx mt"
  from wf_pairwise [OF assms(1) b(1) assms(2)] wf_bounds [OF assms(1) b(1)]
    wf_bounds [OF assms(1) assms(2)] b(2)
  show "end_idx b \<le> end_idx mt" by auto
qed

lemma aligned_Suc:
  assumes "aligned ms i" "\<not> isStart ms i"
  shows "aligned ms (i + 1)"
  unfolding aligned_iff
proof (intro ballI impI)
  fix b assume b: "b \<in> set ms" "start b < i + 1"
  with assms(2) have "start b < i" by (auto simp: isStart_iff less_Suc_eq)
  with assms(1) b(1) show "end_idx b \<le> i + 1" by (auto simp: aligned_iff)
qed

lemma aligned_not_start_uncovered:
  assumes "aligned ms i" "\<not> isStart ms i"
  shows "\<not> coveredBy ms i"
proof
  assume "coveredBy ms i"
  then obtain mt where mt: "mt \<in> set ms" "start mt \<le> i" "i < end_idx mt"
    by (auto simp: coveredBy_iff)
  with assms(2) have "start mt < i" by (auto simp: isStart_iff le_less)
  with assms(1) mt show False by (auto simp: aligned_iff)
qed

lemma inside_match:
  assumes wf: "wellFormedMatches n ms" and mt: "mt \<in> set ms" and j: "start mt < j" "j < end_idx mt"
  shows "\<not> isStart ms j" "coveredBy ms j"
proof -
  show "coveredBy ms j" using mt j by (auto simp: coveredBy_iff intro!: bexI [of _ mt])
  show "\<not> isStart ms j"
  proof
    assume "isStart ms j"
    then obtain b where b: "b \<in> set ms" "start b = j" by (auto simp: isStart_iff)
    from wf_pairwise [OF wf b(1) mt] wf_bounds [OF wf b(1)] b(2) j show False by auto
  qed
qed

lemma filter_upt_match:
  assumes wf: "wellFormedMatches n ms" and mt: "mt \<in> set ms"
  shows "filter (isStart ms) [start mt..<n] = start mt # filter (isStart ms) [end_idx mt..<n]"
    and "filter (\<lambda>j. \<not> coveredBy ms j) [start mt..<n] = filter (\<lambda>j. \<not> coveredBy ms j) [end_idx mt..<n]"
proof -
  from wf_bounds [OF wf mt] have b: "start mt < end_idx mt" "end_idx mt \<le> n" by simp_all
  then have "[start mt..<n] = [start mt..<end_idx mt] @ [end_idx mt..<n]"
    using upt_add_eq_append [of "start mt" "end_idx mt" "n - end_idx mt"] by simp
  moreover from b have "[start mt..<end_idx mt] = start mt # [Suc (start mt)..<end_idx mt]"
    by (simp add: upt_conv_Cons)
  ultimately have u: "[start mt..<n] = start mt # [Suc (start mt)..<end_idx mt] @ [end_idx mt..<n]"
    by simp
  have s: "isStart ms (start mt)" "coveredBy ms (start mt)"
    using mt b by (auto simp: isStart_iff coveredBy_iff)
  have m1: "filter (isStart ms) [Suc (start mt)..<end_idx mt] = []"
    using inside_match(1) [OF wf mt] by (auto simp: filter_empty_conv)
  have m2: "filter (\<lambda>j. \<not> coveredBy ms j) [Suc (start mt)..<end_idx mt] = []"
    using inside_match(2) [OF wf mt] by (auto simp: filter_empty_conv)
  show "filter (isStart ms) [start mt..<n] = start mt # filter (isStart ms) [end_idx mt..<n]"
    unfolding u using s m1 by simp
  show "filter (\<lambda>j. \<not> coveredBy ms j) [start mt..<n] = filter (\<lambda>j. \<not> coveredBy ms j) [end_idx mt..<n]"
    unfolding u using s m2 by simp
qed

subsection \<open>The loop\<close>

lemma phraseStep_log:
  "phraseStep rt m tokens seed i mt st = Inr st1 \<Longrightarrow>
   st_selectCalls st1 = st_selectCalls st @ [i] \<and>
   st_staticCalls st1 = st_staticCalls st \<and>
   (\<exists>P. (P = [] \<or> P = [i]) \<and>
      st_pushedAt st1 = st_pushedAt st @ P \<and>
      map entryType (st_script st1) = map entryType (st_script st) @ map (\<lambda>j. PhraseType) P)"
  by (auto simp: phraseStep_def Let_def split: sum.splits prod.splits option.splits)

lemma phraseStep_throws: "phraseStep rt m tokens seed i mt st = Inl e \<Longrightarrow> e = TypeError"
  by (auto simp: phraseStep_def selectClipOf_def Let_def
        split: sum.splits prod.splits option.splits jsvalue.splits if_splits)

lemma staticStep_log:
  "st_selectCalls (staticStep m tokens i st) = st_selectCalls st \<and>
   st_staticCalls (staticStep m tokens i st) = st_staticCalls st @ [i] \<and>
   (\<exists>P. (P = [] \<or> P = [i]) \<and>
      st_pushedAt (staticStep m tokens i st) = st_pushedAt st @ P \<and>
      map entryType (st_script (staticStep m tokens i st)) =
        map entryType (st_script st) @ map (\<lambda>j. StaticType) P)"
  by (auto simp: staticStep_def Let_def split: jsvalue.splits)

lemma scriptPost_end: "n \<le> i \<Longrightarrow> scriptPost ms n i st st"
  by (simp add: scriptPost_def)

lemma scriptPost_step:
  assumes i: "i < k" "k \<le> n"
    and sel: "st_selectCalls st1 @ filter (isStart ms) [k..<n] =
              st_selectCalls st @ filter (isStart ms) [i..<n]"
    and stat: "st_staticCalls st1 @ filter (\<lambda>j. \<not> coveredBy ms j) [k..<n] =
               st_staticCalls st @ filter (\<lambda>j. \<not> coveredBy ms j) [i..<n]"
    and push: "P1 = [] \<or> P1 = [i]" "st_pushedAt st1 = st_pushedAt st @ P1"
      "map entryType (st_script st1) =
         map entryType (st_script st) @ map (\<lambda>j. if isStart ms j then PhraseType else StaticType) P1"
      "isStart ms i \<or> \<not> coveredBy ms i"
    and post: "scriptPost ms n k st1 st'"
  shows "scriptPost ms n i st st'"
proof -
  from post obtain P2 where P2: "st_pushedAt st' = st_pushedAt st1 @ P2" "sorted_wrt (<) P2"
      "list_all (\<lambda>j. k \<le> j \<and> j < n) P2"
      "map entryType (st_script st') =
         map entryType (st_script st1) @ map (\<lambda>j. if isStart ms j then PhraseType else StaticType) P2"
      "list_all (\<lambda>j. isStart ms j \<or> \<not> coveredBy ms j) P2"
    and s2: "st_selectCalls st' = st_selectCalls st1 @ filter (isStart ms) [k..<n]"
      "st_staticCalls st' = st_staticCalls st1 @ filter (\<lambda>j. \<not> coveredBy ms j) [k..<n]"
    unfolding scriptPost_def by blast
  let ?P = "P1 @ P2"
  have a: "st_pushedAt st' = st_pushedAt st @ ?P" using P2(1) push(2) by simp
  have b: "sorted_wrt (<) ?P"
    using push(1) P2(2,3) i by (auto simp: sorted_wrt_append list_all_iff)
  have c: "list_all (\<lambda>j. i \<le> j \<and> j < n) ?P"
    using push(1) P2(3) i by (auto simp: list_all_iff)
  have d: "map entryType (st_script st') =
         map entryType (st_script st) @ map (\<lambda>j. if isStart ms j then PhraseType else StaticType) ?P"
    using P2(4) push(3) by simp
  have e: "list_all (\<lambda>j. isStart ms j \<or> \<not> coveredBy ms j) ?P"
    using push(1,4) P2(5) by (auto simp: list_all_iff)
  show ?thesis unfolding scriptPost_def
    using s2 sel stat a b c d e by auto
qed

text \<open>
  On matches that are disjoint and in order the loop ends: it throws a \<^verbatim>\<open>TypeError\<close> or it
  returns, and where it returns it has handled every index once.
\<close>

lemma scriptLoop_post:
  assumes wf: "wellFormedMatches (length tokens) ms"
  shows "aligned ms i \<Longrightarrow>
    \<exists>r. scriptLoop rt m tokens ms seed i st = Some r \<and>
        (case r of Inl e \<Rightarrow> e = TypeError | Inr st' \<Rightarrow> scriptPost ms (length tokens) i st st')"
proof (induction "length tokens - i" arbitrary: i st rule: less_induct)
  case less
  show ?case
  proof (cases "i < length tokens")
    case False
    then have "scriptLoop rt m tokens ms seed i st = Some (Inr st)"
      by (subst scriptLoop.simps) simp
    with False show ?thesis by (simp add: scriptPost_end)
  next
    case True
    show ?thesis
    proof (cases "find (\<lambda>mt. start mt = i) ms")
      case None
      then have ns: "\<not> isStart ms i" by (simp add: isStart_def)
      with less.prems have nc: "\<not> coveredBy ms i" by (rule aligned_not_start_uncovered)
      let ?st1 = "staticStep m tokens i st"
      have eq: "scriptLoop rt m tokens ms seed i st = scriptLoop rt m tokens ms seed (i + 1) ?st1"
        using True None nc by (subst scriptLoop.simps) simp
      have "aligned ms (i + 1)" using less.prems ns by (rule aligned_Suc)
      moreover have "length tokens - (i + 1) < length tokens - i" using True by simp
      ultimately obtain r where r: "scriptLoop rt m tokens ms seed (i + 1) ?st1 = Some r"
          "case r of Inl e \<Rightarrow> e = TypeError | Inr st' \<Rightarrow> scriptPost ms (length tokens) (i + 1) ?st1 st'"
        using less.hyps [of "i + 1" ?st1] by blast
      from staticStep_log [of m tokens i st] obtain P1 where P1: "P1 = [] \<or> P1 = [i]"
          "st_pushedAt ?st1 = st_pushedAt st @ P1"
          "map entryType (st_script ?st1) = map entryType (st_script st) @ map (\<lambda>j. StaticType) P1"
        and l: "st_selectCalls ?st1 = st_selectCalls st" "st_staticCalls ?st1 = st_staticCalls st @ [i]"
        by blast
      have u: "[i..<length tokens] = i # [i + 1..<length tokens]"
        using True by (simp add: upt_conv_Cons)
      have "scriptPost ms (length tokens) i st st'" if p: "scriptPost ms (length tokens) (i + 1) ?st1 st'"
        for st'
      proof (rule scriptPost_step [where k = "i + 1" and ?st1.0 = ?st1 and ?P1.0 = P1])
        show "i < i + 1" "i + 1 \<le> length tokens" using True by simp_all
        show "st_selectCalls ?st1 @ filter (isStart ms) [i + 1..<length tokens] =
              st_selectCalls st @ filter (isStart ms) [i..<length tokens]"
          unfolding u using l ns by simp
        show "st_staticCalls ?st1 @ filter (\<lambda>j. \<not> coveredBy ms j) [i + 1..<length tokens] =
               st_staticCalls st @ filter (\<lambda>j. \<not> coveredBy ms j) [i..<length tokens]"
          unfolding u using l nc by simp
        show "P1 = [] \<or> P1 = [i]" "st_pushedAt ?st1 = st_pushedAt st @ P1" by (fact P1)+
        show "map entryType (st_script ?st1) =
           map entryType (st_script st) @ map (\<lambda>j. if isStart ms j then PhraseType else StaticType) P1"
          using P1(1,3) ns by auto
        show "isStart ms i \<or> \<not> coveredBy ms i" using nc by simp
        show "scriptPost ms (length tokens) (i + 1) ?st1 st'" by (fact p)
      qed
      with r eq show ?thesis by (cases r) auto
    next
      case (Some mt)
      then have mt: "mt \<in> set ms" "start mt = i"
        by (auto simp: find_Some_iff)
      from wf_bounds [OF wf mt(1)] mt(2) have b: "i < end_idx mt" "end_idx mt \<le> length tokens"
        by simp_all
      have st: "isStart ms i" using Some by (simp add: isStart_def)
      show ?thesis
      proof (cases "phraseStep rt m tokens seed i mt st")
        case (Inl e)
        then have "scriptLoop rt m tokens ms seed i st = Some (Inl e)"
          using True Some by (subst scriptLoop.simps) simp
        with phraseStep_throws [OF Inl] show ?thesis by simp
      next
        case (Inr st1)
        have eq: "scriptLoop rt m tokens ms seed i st = scriptLoop rt m tokens ms seed (end_idx mt) st1"
          using True Some Inr by (subst scriptLoop.simps) simp
        have "aligned ms (end_idx mt)" using wf mt(1) by (rule aligned_after_match)
        moreover have "length tokens - end_idx mt < length tokens - i" using True b by simp
        ultimately obtain r where r: "scriptLoop rt m tokens ms seed (end_idx mt) st1 = Some r"
            "case r of Inl e \<Rightarrow> e = TypeError | Inr st' \<Rightarrow> scriptPost ms (length tokens) (end_idx mt) st1 st'"
          using less.hyps [of "end_idx mt" st1] by blast
        from phraseStep_log [OF Inr] obtain P1 where P1: "P1 = [] \<or> P1 = [i]"
            "st_pushedAt st1 = st_pushedAt st @ P1"
            "map entryType (st_script st1) = map entryType (st_script st) @ map (\<lambda>j. PhraseType) P1"
          and l: "st_selectCalls st1 = st_selectCalls st @ [i]" "st_staticCalls st1 = st_staticCalls st"
          by blast
        note f = filter_upt_match [OF wf mt(1), unfolded mt(2)]
        have "scriptPost ms (length tokens) i st st'"
          if p: "scriptPost ms (length tokens) (end_idx mt) st1 st'" for st'
        proof (rule scriptPost_step [where k = "end_idx mt" and ?st1.0 = st1 and ?P1.0 = P1])
          show "i < end_idx mt" "end_idx mt \<le> length tokens" by (fact b)+
          show "st_selectCalls st1 @ filter (isStart ms) [end_idx mt..<length tokens] =
                st_selectCalls st @ filter (isStart ms) [i..<length tokens]"
            using l f(1) by simp
          show "st_staticCalls st1 @ filter (\<lambda>j. \<not> coveredBy ms j) [end_idx mt..<length tokens] =
                 st_staticCalls st @ filter (\<lambda>j. \<not> coveredBy ms j) [i..<length tokens]"
            using l f(2) by simp
          show "P1 = [] \<or> P1 = [i]" "st_pushedAt st1 = st_pushedAt st @ P1" by (fact P1)+
          show "map entryType (st_script st1) =
             map entryType (st_script st) @ map (\<lambda>j. if isStart ms j then PhraseType else StaticType) P1"
            using P1(1,3) st by auto
          show "isStart ms i \<or> \<not> coveredBy ms i" using st by simp
          show "scriptPost ms (length tokens) (end_idx mt) st1 st'" by (fact p)
        qed
        with r eq show ?thesis by (cases r) auto
      qed
    qed
  qed
qed

lemma count_list_filter_upt:
  "count_list (filter Q [0..<n]) i = (if i < n \<and> Q i then 1 else 0)"
  by (induction n) auto

lemma count_list_distinct: "distinct xs \<Longrightarrow> count_list xs x \<le> 1"
  by (induction xs) auto

lemma isStart_covered:
  "wellFormedMatches n ms \<Longrightarrow> isStart ms i \<Longrightarrow> coveredBy ms i"
  by (auto simp: isStart_iff coveredBy_iff dest: wf_bounds)

lemma generateScriptRun_ends:
  "\<exists>r. generateScriptRun rt m tokens (greedyMatchPhrases m tokens) sessionId = Some r"
proof -
  have "wellFormedMatches (length tokens) (greedyMatchPhrases m tokens)"
    by (rule greedy_wellFormed)
  from scriptLoop_post [OF this aligned_0]
  show ?thesis unfolding generateScriptRun_def by blast
qed

text \<open>
  Where \<^verbatim>\<open>generateScript\<close> returns, on the matcher's matches, each index has been handled
  in one way: \<^verbatim>\<open>getStaticClip\<close> never called at a covered index and once at an uncovered
  one, \<^verbatim>\<open>selectClip\<close> called once at the start of each match and nowhere else, at most one
  item pushed at an index, a phrase item at the start of a match only and a static item
  at an uncovered index only.
\<close>

lemma script_coverage_when_returned:
  assumes "matches = greedyMatchPhrases m tokens"
    and run: "generateScriptRun rt m tokens matches sessionId = Some (Inr st)"
  shows "(\<forall>i. i < length tokens \<longrightarrow>
              (coveredBy matches i \<longrightarrow>
                 count_list (st_staticCalls st) i = 0 \<and>
                 count_list (st_selectCalls st) i = (if isStart matches i then 1 else 0)) \<and>
              (\<not> coveredBy matches i \<longrightarrow>
                 count_list (st_staticCalls st) i = 1 \<and> count_list (st_selectCalls st) i = 0) \<and>
              count_list (st_pushedAt st) i \<le> 1) \<and>
         length (st_script st) = length (st_pushedAt st) \<and>
         (\<forall>k. k < length (st_script st) \<longrightarrow>
              st_pushedAt st ! k < length tokens \<and>
              (case entryType (st_script st ! k) of
                 PhraseType \<Rightarrow> isStart matches (st_pushedAt st ! k)
               | StaticType \<Rightarrow> \<not> coveredBy matches (st_pushedAt st ! k)))"
proof -
  let ?n = "length tokens"
  let ?init = "\<lparr>st_script = [], st_usedClips = {}, st_selectCalls = [], st_staticCalls = [],
                st_pushedAt = []\<rparr> :: 'a gen_state"
  have wf: "wellFormedMatches ?n matches" unfolding assms(1) by (rule greedy_wellFormed)
  from scriptLoop_post [OF wf aligned_0, of rt m sessionId ?init] run
  have post: "scriptPost matches ?n 0 ?init st"
    by (auto simp: generateScriptRun_def)
  from post obtain P where
    sel: "st_selectCalls st = filter (isStart matches) [0..<?n]" and
    stat: "st_staticCalls st = filter (\<lambda>j. \<not> coveredBy matches j) [0..<?n]" and
    P: "st_pushedAt st = P" "sorted_wrt (<) P" "list_all (\<lambda>j. j < ?n) P"
       "map entryType (st_script st) =
          map (\<lambda>j. if isStart matches j then PhraseType else StaticType) P"
       "list_all (\<lambda>j. isStart matches j \<or> \<not> coveredBy matches j) P"
    unfolding scriptPost_def by auto
  have len: "length (st_script st) = length (st_pushedAt st)"
    using P(4) P(1) by (metis length_map)
  have dist: "distinct P" using P(2) by (simp add: strict_sorted_iff)
  have idx: "(coveredBy matches i \<longrightarrow>
                 count_list (st_staticCalls st) i = 0 \<and>
                 count_list (st_selectCalls st) i = (if isStart matches i then 1 else 0)) \<and>
              (\<not> coveredBy matches i \<longrightarrow>
                 count_list (st_staticCalls st) i = 1 \<and> count_list (st_selectCalls st) i = 0) \<and>
              count_list (st_pushedAt st) i \<le> 1" if "i < ?n" for i
    using that isStart_covered [OF wf, of i] count_list_distinct [OF dist, of i]
    by (auto simp: sel stat P(1) count_list_filter_upt)
  have item: "st_pushedAt st ! k < ?n \<and>
              (case entryType (st_script st ! k) of
                 PhraseType \<Rightarrow> isStart matches (st_pushedAt st ! k)
               | StaticType \<Rightarrow> \<not> coveredBy matches (st_pushedAt st ! k))"
    if "k < length (st_script st)" for k
  proof -
    from that len P(1) have k: "k < length P" by simp
    then have "P ! k \<in> set P" by simp
    with P(3,5) have a: "P ! k < ?n" "isStart matches (P ! k) \<or> \<not> coveredBy matches (P ! k)"
      by (simp_all add: list_all_iff)
    have "entryType (st_script st ! k) = map entryType (st_script st) ! k"
      using that by simp
    also have "\<dots> = (if isStart matches (P ! k) then PhraseType else StaticType)"
      using k by (simp add: P(4))
    finally show ?thesis using a by (auto simp: P(1))
  qed
  from idx len item show ?thesis by blast
qed

subsection \<open>Evaluating the builder on examples\<close>

lemmas script_eval_simps = scriptLoop.simps phraseStep_def staticStep_def selectClipOf_def
  selectClip_def getStaticClip_def slugify_def optIndex_def orElse_def coveredBy_def
  inMatch_def Let_def exampleManifest_def exampleRuntime_def exampleHash_def exampleTokens_def
  exampleMatches_def char_simps lookup_simps

lemma example_generateScript:
  "generateScript exampleRuntime exampleManifest exampleTokens exampleMatches (js ''abc'') =
     Some (Inr (map Item exampleScript))"
  by (simp add: generateScript_def generateScriptRun_def script_eval_simps exampleScript_def)

lemma greedy_constructor_foo:
  "greedyMatchPhrases exampleManifest [js ''constructor'', js ''foo''] =
     [\<lparr>phrase = js ''constructor'', start = 0, end_idx = 1\<rparr>]"
  by (simp add: greedyMatchPhrases_def greedyLoop.simps eval_simps exampleManifest_def)

subsection \<open>Every index is handled once\<close>

text \<open>
  Claim C3, at tokens where the builder leaves an index unhandled. For the tokens
  \<^verbatim>\<open>constructor\<close>, \<^verbatim>\<open>foo\<close> and a manifest with no phrase \<^verbatim>\<open>constructor\<close> of its own, the
  matcher returns the match \<^verbatim>\<open>{phrase: "constructor", start: 0, end: 1}\<close>, since both
  \<^verbatim>\<open>this.phraseMap["constructor"]\<close> and \<^verbatim>\<open>this.phraseClips["constructor"]\<close> are the inherited
  function \<^verbatim>\<open>Object\<close>, of length 1. \<^verbatim>\<open>generateScript\<close> passes that function to \<^verbatim>\<open>selectClip\<close>,
  which throws a \<^verbatim>\<open>TypeError\<close>: index 1, which no match covers, gets no fallback.
\<close>

theorem generateScript_inherited_pool_throws:
  "greedyMatchPhrases exampleManifest [js ''constructor'', js ''foo''] =
     [\<lparr>phrase = js ''constructor'', start = 0, end_idx = 1\<rparr>] \<and>
   generateScriptRun exampleRuntime exampleManifest [js ''constructor'', js ''foo'']
       [\<lparr>phrase = js ''constructor'', start = 0, end_idx = 1\<rparr>] (js ''abc'') =
     Some (Inl TypeError) \<and>
   \<not> coveredBy [\<lparr>phrase = js ''constructor'', start = 0, end_idx = 1\<rparr>] 1"
proof -
  have "generateScriptRun exampleRuntime exampleManifest [js ''constructor'', js ''foo'']
       [\<lparr>phrase = js ''constructor'', start = 0, end_idx = 1\<rparr>] (js ''abc'') =
     Some (Inl TypeError)"
    by (simp add: generateScriptRun_def script_eval_simps)
  moreover have "\<not> coveredBy [\<lparr>phrase = js ''constructor'', start = 0, end_idx = 1\<rparr>] 1"
    by (simp add: coveredBy_def inMatch_def)
  ultimately show ?thesis using greedy_constructor_foo by blast
qed

section \<open>Properties of the serializer\<close>

subsection \<open>The lines of a playlist\<close>

lemma segmentLoop_eq:
  "segmentLoop rt r2 script (lines, t) =
     (lines @ concat (map (itemLines rt r2) script),
      foldl (\<lambda>t item. numAdd rt t (item_duration item)) t script)"
  by (induction script arbitrary: lines t) (simp_all add: itemLines_def)

lemma buildLines_eq:
  "buildLines rt r2 now script sessionId =
     [js ''#EXTM3U'', js ''#EXT-X-VERSION:3'', js ''#EXT-X-TARGETDURATION:10'',
      js ''#EXT-X-PLAYLIST-TYPE:VOD'', js ''# Session: '' @ sessionId, js ''# Generated: '' @ now,
      js ''# Clips: '' @ showNat (length script + 1), js ''#EXT-X-DISCONTINUITY'',
      js ''#EXTINF:'' @ toFixed rt 3 (openerDuration rt) @ js '','', openerPath r2] @
     concat (map (itemLines rt r2) script) @
     [js ''#EXT-X-ENDLIST'', js ''# Total duration: '' @ toFixed rt 1 (totalOf rt script) @ js ''s'']"
  by (simp add: buildLines_def Let_def segmentLoop_eq totalOf_def)

lemma joinWith_append:
  "xs \<noteq> [] \<Longrightarrow> ys \<noteq> [] \<Longrightarrow> joinWith sep (xs @ ys) = joinWith sep xs @ sep @ joinWith sep ys"
proof (induction sep xs rule: joinWith.induct)
  case (1 sep)
  then show ?case by simp
next
  case (2 sep x)
  then show ?case by (cases ys) simp_all
next
  case (3 sep x y ys')
  then show ?case by simp
qed

lemma joinWith_Cons:
  "ys \<noteq> [] \<Longrightarrow> joinWith sep (x # ys) = x @ sep @ joinWith sep ys"
  by (cases ys) simp_all

lemma buildM3U8_timestamp:
  "buildM3U8 rt r2 now script sessionId =
     playlistHead sessionId @ now @ [0x0A] @
     joinWith [0x0A] (drop 6 (buildLines rt r2 [] script sessionId))"
  by (simp add: buildM3U8_def buildLines_eq playlistHead_def joinWith_Cons)

lemma splitLines_single: "0x0A \<notin> set l \<Longrightarrow> splitLines l = [l]"
  by (induction l) auto

lemma splitLines_line: "0x0A \<notin> set l \<Longrightarrow> splitLines (l @ 0x0A # rest) = l # splitLines rest"
  by (induction l) auto

lemma splitLines_joinWith:
  "ls \<noteq> [] \<Longrightarrow> list_all singleLine ls \<Longrightarrow> splitLines (joinWith [0x0A] ls) = ls"
proof (induction "[0x0A :: nat]" ls rule: joinWith.induct)
  case 1
  then show ?case by simp
next
  case (2 x)
  then show ?case by (simp add: splitLines_single singleLine_def)
next
  case (3 x y ys)
  then show ?case by (simp add: splitLines_line singleLine_def)
qed

lemma showNat_digits: "set (showNat n) \<subseteq> {0x30..0x39}"
proof (induction n rule: showNat.induct)
  case (1 n)
  show ?case
  proof (cases "n < 10")
    case True
    then show ?thesis by (subst showNat.simps) auto
  next
    case False
    have "n mod 10 < 10" by simp
    then have "0x30 + n mod 10 \<in> {0x30..0x39}" by auto
    with 1 False show ?thesis by (subst showNat.simps) auto
  qed
qed

lemma singleLine_showNat: "singleLine (showNat n)"
  using showNat_digits [of n] by (auto simp: singleLine_def)

lemma singleLine_append [simp]: "singleLine (a @ b) \<longleftrightarrow> singleLine a \<and> singleLine b"
  by (auto simp: singleLine_def)

lemma singleLine_js:
  "singleLine (js ''#EXTM3U'')" "singleLine (js ''#EXT-X-VERSION:3'')"
  "singleLine (js ''#EXT-X-TARGETDURATION:10'')" "singleLine (js ''#EXT-X-PLAYLIST-TYPE:VOD'')"
  "singleLine (js ''# Session: '')" "singleLine (js ''# Generated: '')" "singleLine (js ''# Clips: '')"
  "singleLine (js ''#EXT-X-DISCONTINUITY'')" "singleLine (js ''#EXTINF:'')" "singleLine (js '','')"
  "singleLine (js ''#EXT-X-ENDLIST'')" "singleLine (js ''# Total duration: '')" "singleLine (js ''s'')"
  "singleLine (js ''/hls_clips/static/opener.ts'')" "singleLine (js ''/hls_clips/trimmed/'')"
  "singleLine (js ''/hls_clips/static/'')"
  by (simp_all add: singleLine_def js_def)

lemma singleLine_openerPath:
  "(case r2 of None \<Rightarrow> True | Some b \<Rightarrow> singleLine b \<and> take 1 b \<noteq> [0x23]) \<Longrightarrow>
     singleLine (openerPath r2)"
  by (auto simp: openerPath_def truthyString_def singleLine_js split: option.splits)

lemma singleLine_clipPath:
  "(case r2 of None \<Rightarrow> True | Some b \<Rightarrow> singleLine b \<and> take 1 b \<noteq> [0x23]) \<Longrightarrow>
   singleLine (item_filename item) \<Longrightarrow> singleLine (clipPath r2 item)"
  by (auto simp: clipPath_def truthyString_def singleLine_js split: option.splits)

lemma singleLine_items:
  assumes "case r2 of None \<Rightarrow> True | Some b \<Rightarrow> singleLine b \<and> take 1 b \<noteq> [0x23]"
    and "list_all (\<lambda>item. singleLine (item_filename item) \<and>
                        singleLine (toFixed rt 3 (item_duration item))) script"
  shows "list_all singleLine (concat (map (itemLines rt r2) script))"
  using assms(2)
  by (induction script)
     (simp_all add: itemLines_def singleLine_js singleLine_clipPath [OF assms(1)])

lemma playlist_lines:
  assumes "lineSafe rt r2 now script sessionId"
  shows "splitLines (buildM3U8 rt r2 now script sessionId) = buildLines rt r2 now script sessionId"
proof -
  from assms have b: "case r2 of None \<Rightarrow> True | Some b \<Rightarrow> singleLine b \<and> take 1 b \<noteq> [0x23]"
    and i: "list_all (\<lambda>item. singleLine (item_filename item) \<and>
                        singleLine (toFixed rt 3 (item_duration item))) script"
    and r: "singleLine sessionId" "singleLine now" "singleLine (toFixed rt 3 (openerDuration rt))"
      "singleLine (toFixed rt 1 (totalOf rt script))"
    by (simp_all add: lineSafe_def)
  have "list_all singleLine (buildLines rt r2 now script sessionId)"
    unfolding buildLines_eq
    using r singleLine_items [OF b i] singleLine_openerPath [OF b]
    by (simp add: singleLine_js singleLine_showNat)
  moreover have "buildLines rt r2 now script sessionId \<noteq> []" by (simp add: buildLines_eq)
  ultimately show ?thesis unfolding buildM3U8_def by (rule splitLines_joinWith [rotated])
qed

subsection \<open>Segments\<close>

lemma framed_nth:
  "framed prev ls \<Longrightarrow> k < length ls \<Longrightarrow> isExtinfLine (ls ! k) \<Longrightarrow>
     (if k = 0 then prev else ls ! (k - 1)) = js ''#EXT-X-DISCONTINUITY'' \<and>
     Suc k < length ls \<and> isUrlLine (ls ! Suc k)"
proof (induction ls arbitrary: prev k)
  case Nil
  then show ?case by simp
next
  case (Cons l ls)
  show ?case
  proof (cases k)
    case 0
    with Cons.prems show ?thesis by (cases ls) auto
  next
    case (Suc k')
    with Cons.prems have "framed l ls" "k' < length ls" "isExtinfLine (ls ! k')" by simp_all
    from Cons.IH [OF this] Suc show ?thesis by (cases k') auto
  qed
qed

lemma isUrlLine_not_extinf: "isUrlLine l \<Longrightarrow> \<not> isExtinfLine l"
  by (cases l) (auto simp: isUrlLine_def isExtinfLine_def js_def)

lemma isUrlLine_openerPath:
  "(case r2 of None \<Rightarrow> True | Some b \<Rightarrow> singleLine b \<and> take 1 b \<noteq> [0x23]) \<Longrightarrow>
     isUrlLine (openerPath r2)"
  by (cases r2; cases "the r2")
     (auto simp: openerPath_def truthyString_def isUrlLine_def js_def)

lemma isUrlLine_clipPath:
  "(case r2 of None \<Rightarrow> True | Some b \<Rightarrow> singleLine b \<and> take 1 b \<noteq> [0x23]) \<Longrightarrow>
     isUrlLine (clipPath r2 item)"
  by (cases r2; cases "the r2")
     (auto simp: clipPath_def truthyString_def isUrlLine_def js_def)

lemma extinf_lines:
  "isExtinfLine (js ''#EXTINF:'' @ x)" "\<not> isExtinfLine (js ''#EXT-X-DISCONTINUITY'')"
  "\<not> isExtinfLine (js ''#EXTM3U'')" "\<not> isExtinfLine (js ''#EXT-X-VERSION:3'')"
  "\<not> isExtinfLine (js ''#EXT-X-TARGETDURATION:10'')"
  "\<not> isExtinfLine (js ''#EXT-X-PLAYLIST-TYPE:VOD'')"
  "\<not> isExtinfLine (js ''# Session: '' @ x)" "\<not> isExtinfLine (js ''# Generated: '' @ x)"
  "\<not> isExtinfLine (js ''# Clips: '' @ x)" "\<not> isExtinfLine (js ''#EXT-X-ENDLIST'')"
  "\<not> isExtinfLine (js ''# Total duration: '' @ x)"
  by (simp_all add: isExtinfLine_def js_def)

lemma framed_items:
  assumes "case r2 of None \<Rightarrow> True | Some b \<Rightarrow> singleLine b \<and> take 1 b \<noteq> [0x23]"
  shows "framed prev (concat (map (itemLines rt r2) script) @
           [js ''#EXT-X-ENDLIST'', js ''# Total duration: '' @ x])"
proof (induction script arbitrary: prev)
  case Nil
  show ?case by (simp add: extinf_lines)
next
  case (Cons item script)
  from Cons [of "clipPath r2 item"] show ?case
    using isUrlLine_clipPath [OF assms, of item]
    by (simp add: itemLines_def extinf_lines isUrlLine_not_extinf)
qed

lemma framed_buildLines:
  assumes "case r2 of None \<Rightarrow> True | Some b \<Rightarrow> singleLine b \<and> take 1 b \<noteq> [0x23]"
  shows "framed [] (buildLines rt r2 now script sessionId)"
  unfolding buildLines_eq
  using framed_items [OF assms, of "openerPath r2" rt script] isUrlLine_openerPath [OF assms]
  by (simp add: extinf_lines isUrlLine_not_extinf)

lemma count_extinf_items:
  assumes "case r2 of None \<Rightarrow> True | Some b \<Rightarrow> singleLine b \<and> take 1 b \<noteq> [0x23]"
  shows "length (filter isExtinfLine (concat (map (itemLines rt r2) script))) = length script"
proof (induction script)
  case Nil
  show ?case by simp
next
  case (Cons item script)
  have "\<not> isExtinfLine (clipPath r2 item)"
    using isUrlLine_clipPath [OF assms, of item] by (rule isUrlLine_not_extinf)
  with Cons show ?case by (simp add: itemLines_def extinf_lines)
qed

lemma count_extinf_buildLines:
  assumes "case r2 of None \<Rightarrow> True | Some b \<Rightarrow> singleLine b \<and> take 1 b \<noteq> [0x23]"
  shows "length (filter isExtinfLine (buildLines rt r2 now script sessionId)) = length script + 1"
  unfolding buildLines_eq
  using count_extinf_items [OF assms, of rt script] isUrlLine_openerPath [OF assms]
  by (simp add: extinf_lines isUrlLine_not_extinf)

lemma buildLines_ends:
  "hd (buildLines rt r2 now script sessionId) = js ''#EXTM3U''"
  "last (buildLines rt r2 now script sessionId) =
     js ''# Total duration: '' @ toFixed rt 1 (totalOf rt script) @ js ''s''"
  "last (butlast (buildLines rt r2 now script sessionId)) = js ''#EXT-X-ENDLIST''"
  "length (buildLines rt r2 now script sessionId) = 12 + 3 * length script"
proof -
  have l: "length (concat (map (itemLines rt r2) script)) = 3 * length script"
    by (induction script) (simp_all add: itemLines_def)
  show "hd (buildLines rt r2 now script sessionId) = js ''#EXTM3U''"
    by (simp add: buildLines_eq)
  show "last (buildLines rt r2 now script sessionId) =
     js ''# Total duration: '' @ toFixed rt 1 (totalOf rt script) @ js ''s''"
    by (simp add: buildLines_eq)
  show "last (butlast (buildLines rt r2 now script sessionId)) = js ''#EXT-X-ENDLIST''"
    by (simp add: buildLines_eq butlast_append)
  show "length (buildLines rt r2 now script sessionId) = 12 + 3 * length script"
    by (simp add: buildLines_eq l)
qed

lemma example_lineSafe:
  "lineSafe exampleRuntime None (js ''2025-11-16T10:00:00.000Z'') exampleScript (js ''abc'')"
  by (simp add: lineSafe_def singleLine_def exampleScript_def exampleRuntime_def toFixedMillis_def
        showNat.simps totalOf_def js_def Let_def)

lemma example_total:
  "toFixed exampleRuntime 1 (totalOf exampleRuntime exampleScript) = js ''12.0''"
  by (simp add: exampleScript_def exampleRuntime_def toFixedMillis_def showNat.simps totalOf_def
        js_def Let_def)

subsection \<open>The structure of a playlist\<close>

text \<open>
  Claim C6, as it is stated, at the script of the example: the playlist does not end with
  the line \<^verbatim>\<open>#EXT-X-ENDLIST\<close>. Its last line is the comment with the total duration,
  which \<^verbatim>\<open>buildM3U8\<close> pushes after \<^verbatim>\<open>#EXT-X-ENDLIST\<close>.
\<close>

theorem playlist_last_line_not_endlist:
  "last (splitLines (buildM3U8 exampleRuntime None (js ''2025-11-16T10:00:00.000Z'') exampleScript
           (js ''abc''))) = js ''# Total duration: 12.0s'' \<and>
   last (splitLines (buildM3U8 exampleRuntime None (js ''2025-11-16T10:00:00.000Z'') exampleScript
           (js ''abc''))) \<noteq> js ''#EXT-X-ENDLIST''"
proof -
  have "last (splitLines (buildM3U8 exampleRuntime None (js ''2025-11-16T10:00:00.000Z'')
           exampleScript (js ''abc''))) =
        js ''# Total duration: '' @ toFixed exampleRuntime 1 (totalOf exampleRuntime exampleScript) @
        js ''s''"
    by (simp only: playlist_lines [OF example_lineSafe] buildLines_ends)
  moreover have "js ''# Total duration: '' @ js ''12.0'' @ js ''s'' = js ''# Total duration: 12.0s''"
    by (simp add: js_def)
  ultimately have a: "last (splitLines (buildM3U8 exampleRuntime None (js ''2025-11-16T10:00:00.000Z'')
           exampleScript (js ''abc''))) = js ''# Total duration: 12.0s''"
    by (simp only: example_total)
  have "js ''# Total duration: 12.0s'' \<noteq> js ''#EXT-X-ENDLIST''" by (simp add: js_def)
  with a show ?thesis by simp
qed

text \<open>
  A line break in what the serializer is given breaks the lines of the playlist: with
  the session id \<^verbatim>\<open>x\<close>, line break, \<^verbatim>\<open>#EXTINF:1,\<close> the playlist has an \<^verbatim>\<open>#EXTINF\<close> line right
  after the comment \<^verbatim>\<open># Session: x\<close>. The server's session ids are 32 hexadecimal digits.
\<close>

lemma session_line_break_unframed:
  "splitLines (buildM3U8 exampleRuntime None (js ''2025-11-16T10:00:00.000Z'') []
      (js ''x'' @ [0x0A] @ js ''#EXTINF:1,'')) ! 5 = js ''#EXTINF:1,'' \<and>
   splitLines (buildM3U8 exampleRuntime None (js ''2025-11-16T10:00:00.000Z'') []
      (js ''x'' @ [0x0A] @ js ''#EXTINF:1,'')) ! 4 = js ''# Session: x''"
  by (simp add: buildM3U8_def buildLines_eq js_def)

text \<open>
  Claim C6, amended. Where the session id, the timestamp, the base URL, the filenames
  and the printed numbers hold no line break and the base URL does not start with
  \<^verbatim>\<open>#\<close>, the playlist read by lines starts with \<^verbatim>\<open>#EXTM3U\<close>; its last line but one is
  \<^verbatim>\<open>#EXT-X-ENDLIST\<close> and its last line the comment with the total duration; every
  \<^verbatim>\<open>#EXTINF\<close> line stands right after a \<^verbatim>\<open>#EXT-X-DISCONTINUITY\<close> line and right before a
  URI line; and there is one \<^verbatim>\<open>#EXTINF\<close> line for the opener and one for each item of
  the script.
\<close>

theorem playlist_structure:
  assumes "lineSafe rt r2BaseUrl now script sessionId"
    and "ls = splitLines (buildM3U8 rt r2BaseUrl now script sessionId)"
  shows "hd ls = js ''#EXTM3U'' \<and>
         last (butlast ls) = js ''#EXT-X-ENDLIST'' \<and>
         last ls = js ''# Total duration: '' @ toFixed rt 1 (totalOf rt script) @ js ''s'' \<and>
         (\<forall>k. k < length ls \<and> isExtinfLine (ls ! k) \<longrightarrow>
            0 < k \<and> ls ! (k - 1) = js ''#EXT-X-DISCONTINUITY'' \<and>
            k + 1 < length ls \<and> isUrlLine (ls ! (k + 1))) \<and>
         length (filter isExtinfLine ls) = length script + 1 \<and>
         length ls = 12 + 3 * length script"
proof -
  from assms(1) have b: "case r2BaseUrl of None \<Rightarrow> True | Some b \<Rightarrow> singleLine b \<and> take 1 b \<noteq> [0x23]"
    by (simp add: lineSafe_def)
  have ls: "ls = buildLines rt r2BaseUrl now script sessionId"
    unfolding assms(2) using assms(1) by (rule playlist_lines)
  have f: "framed [] ls" unfolding ls using b by (rule framed_buildLines)
  have "0 < k \<and> ls ! (k - 1) = js ''#EXT-X-DISCONTINUITY'' \<and>
            k + 1 < length ls \<and> isUrlLine (ls ! (k + 1))"
    if "k < length ls \<and> isExtinfLine (ls ! k)" for k
  proof -
    from framed_nth [OF f, of k] that
    have a: "(if k = 0 then [] else ls ! (k - 1)) = js ''#EXT-X-DISCONTINUITY''"
      "Suc k < length ls" "isUrlLine (ls ! Suc k)" by simp_all
    have "k \<noteq> 0" using a(1) by (cases "k = 0") (simp_all add: js_def)
    with a show ?thesis by simp
  qed
  then show ?thesis
    using buildLines_ends [of rt r2BaseUrl now script sessionId]
      count_extinf_buildLines [OF b, of rt now script sessionId]
    unfolding ls by blast
qed

theorem playlist_structure_witness:
  "lineSafe exampleRuntime None (js ''2025-11-16T10:00:00.000Z'') exampleScript (js ''abc'') \<and>
   hd (splitLines (buildM3U8 exampleRuntime None (js ''2025-11-16T10:00:00.000Z'') exampleScript
         (js ''abc''))) = js ''#EXTM3U'' \<and>
   last (butlast (splitLines (buildM3U8 exampleRuntime None (js ''2025-11-16T10:00:00.000Z'')
         exampleScript (js ''abc'')))) = js ''#EXT-X-ENDLIST'' \<and>
   length (filter isExtinfLine (splitLines (buildM3U8 exampleRuntime None
         (js ''2025-11-16T10:00:00.000Z'') exampleScript (js ''abc'')))) = 5 \<and>
   length (splitLines (buildM3U8 exampleRuntime None (js ''2025-11-16T10:00:00.000Z'')
         exampleScript (js ''abc''))) = 24"
proof -
  have l: "length exampleScript = 4" by (simp add: exampleScript_def)
  from playlist_structure [OF example_lineSafe refl] l example_lineSafe
  show ?thesis by simp
qed

section \<open>Properties of the pipeline\<close>

lemma generateScript_ends:
  "\<exists>r. generateScript rt m tokens (greedyMatchPhrases m tokens) sessionId = Some r"
  using generateScriptRun_ends [of rt m tokens sessionId] by (auto simp: generateScript_def)

lemma generateScript_throws_TypeError:
  assumes "generateScript rt m tokens (greedyMatchPhrases m tokens) sessionId = Some (Inl e)"
  shows "e = TypeError"
proof -
  let ?st0 = "\<lparr>st_script = [], st_usedClips = {}, st_selectCalls = [], st_staticCalls = [],
               st_pushedAt = []\<rparr> :: 'a gen_state"
  have "wellFormedMatches (length tokens) (greedyMatchPhrases m tokens)"
    by (rule greedy_wellFormed)
  from scriptLoop_post [OF this aligned_0, of rt m sessionId ?st0]
  obtain r where r: "scriptLoop rt m tokens (greedyMatchPhrases m tokens) sessionId 0 ?st0 = Some r"
    and c: "case r of Inl e \<Rightarrow> e = TypeError | Inr st' \<Rightarrow>
              scriptPost (greedyMatchPhrases m tokens) (length tokens) 0 ?st0 st'"
    by blast
  from assms r have "map_sum id st_script r = Inl e"
    by (simp add: generateScript_def generateScriptRun_def)
  then have "r = Inl e" by (cases r) simp_all
  with c show ?thesis by simp
qed

lemma scriptItems_Item [simp]: "scriptItems (map Item items) = Some items"
  by (induction items) simp_all

text \<open>
  \<^verbatim>\<open>generatePlaylist\<close> always ends. It throws the error of the missing fixed text, or what
  \<^verbatim>\<open>generateScript\<close> throws, or the \<^verbatim>\<open>TypeError\<close> of \<^verbatim>\<open>buildM3U8\<close> on an item without
  duration; or it returns.
\<close>

lemma generatePlaylist_unfold:
  "generatePlaylist rt r2 now m sessionId =
     (case fixedTokens m of
        None \<Rightarrow> Some (Inl (Error (js ''No fixed text available in manifest'')))
      | Some tokens \<Rightarrow>
          (case the (generateScript rt m tokens (greedyMatchPhrases m tokens) sessionId) of
             Inl e \<Rightarrow> Some (Inl e)
           | Inr script \<Rightarrow>
               (case scriptItems script of
                  None \<Rightarrow> Some (Inl TypeError)
                | Some items \<Rightarrow>
                    Some (Inr \<lparr>res_playlist = buildM3U8 rt r2 now items sessionId,
                               res_script = script, res_tokens = tokens,
                               res_matches = greedyMatchPhrases m tokens\<rparr>))))"
proof (cases "fixedTokens m")
  case None
  then show ?thesis by (simp add: generatePlaylist_def)
next
  case (Some tokens)
  from generateScript_ends [of rt m tokens sessionId]
  obtain r where "generateScript rt m tokens (greedyMatchPhrases m tokens) sessionId = Some r"
    by blast
  with Some show ?thesis
    by (simp add: generatePlaylist_def Let_def buildM3U8Of_def split: sum.splits option.splits)
qed

text \<open>
  The descriptive error is thrown exactly when the manifest has no fixed tokens; with
  fixed tokens \<^verbatim>\<open>generatePlaylist\<close> returns or throws a \<^verbatim>\<open>TypeError\<close>.
\<close>

lemma generatePlaylist_missing_tokens:
  "generatePlaylist rt r2 now m sessionId \<noteq> None \<and>
   (generatePlaylist rt r2 now m sessionId =
      Some (Inl (Error (js ''No fixed text available in manifest''))) \<longleftrightarrow> fixedTokens m = None) \<and>
   (fixedTokens m \<noteq> None \<longrightarrow>
      generatePlaylist rt r2 now m sessionId = Some (Inl TypeError) \<or>
      (\<exists>r. generatePlaylist rt r2 now m sessionId = Some (Inr r)))"
proof (cases "fixedTokens m")
  case None
  then show ?thesis by (simp add: generatePlaylist_unfold)
next
  case (Some tokens)
  from generateScript_ends [of rt m tokens sessionId]
  obtain r where r: "generateScript rt m tokens (greedyMatchPhrases m tokens) sessionId = Some r"
    by blast
  show ?thesis
  proof (cases r)
    case (Inl e)
    with r generateScript_throws_TypeError [of rt m tokens sessionId e] have "e = TypeError" by simp
    with Some r Inl show ?thesis by (simp add: generatePlaylist_unfold)
  next
    case (Inr script)
    with Some r show ?thesis
      by (cases "scriptItems script") (simp_all add: generatePlaylist_unfold)
  qed
qed

lemma example_generatePlaylist:
  "generatePlaylist exampleRuntime None now exampleManifest (js ''abc'') =
     Some (Inr \<lparr>res_playlist = buildM3U8 exampleRuntime None now exampleScript (js ''abc''),
                res_script = map Item exampleScript, res_tokens = exampleTokens,
                res_matches = exampleMatches\<rparr>)"
proof -
  have f: "fixedTokens exampleManifest = Some exampleTokens"
    by (simp add: exampleManifest_def exampleTokens_def)
  have e: "greedyMatchPhrases exampleManifest exampleTokens = exampleMatches"
    by (simp add: greedy_exampleTokens exampleMatches_def)
  show ?thesis by (simp add: generatePlaylist_unfold f e example_generateScript)
qed

subsection \<open>The one failure\<close>

text \<open>
  Claim C9, at fixed tokens with which generation aborts. The manifest has fixed tokens,
  phrases, words and punctuation. With the one token \<^verbatim>\<open>constructor\<close> the phrase
  \<^verbatim>\<open>constructor\<close> is matched through the inherited function \<^verbatim>\<open>Object\<close> and \<^verbatim>\<open>selectClip\<close>
  throws a \<^verbatim>\<open>TypeError\<close>; with the one token \<^verbatim>\<open>__proto__\<close> the static clip is
  \<^verbatim>\<open>Object.prototype\<close>, the item pushed has no duration, and \<^verbatim>\<open>buildM3U8\<close> throws a
  \<^verbatim>\<open>TypeError\<close>. No playlist is returned.
\<close>

theorem generatePlaylist_inherited_member_throws:
  "fixedTokens (exampleManifest\<lparr>fixedTokens := Some [js ''constructor'']\<rparr>) \<noteq> None \<and>
   generatePlaylist exampleRuntime None (js ''2025-11-16T10:00:00.000Z'')
       (exampleManifest\<lparr>fixedTokens := Some [js ''constructor'']\<rparr>) (js ''abc'') =
     Some (Inl TypeError) \<and>
   generatePlaylist exampleRuntime None (js ''2025-11-16T10:00:00.000Z'')
       (exampleManifest\<lparr>fixedTokens := Some [js ''__proto__'']\<rparr>) (js ''abc'') =
     Some (Inl TypeError)"
proof -
  let ?m1 = "exampleManifest\<lparr>fixedTokens := Some [js ''constructor'']\<rparr>"
  let ?m2 = "exampleManifest\<lparr>fixedTokens := Some [js ''__proto__'']\<rparr>"
  have g1: "greedyMatchPhrases ?m1 [js ''constructor''] =
      [\<lparr>phrase = js ''constructor'', start = 0, end_idx = 1\<rparr>]"
    by (simp add: greedyMatchPhrases_def greedyLoop.simps eval_simps exampleManifest_def)
  have s1: "generateScript exampleRuntime ?m1 [js ''constructor'']
      (greedyMatchPhrases ?m1 [js ''constructor'']) (js ''abc'') = Some (Inl TypeError)"
    unfolding g1 by (simp add: generateScript_def generateScriptRun_def script_eval_simps)
  have g2: "greedyMatchPhrases ?m2 [js ''__proto__''] = []"
    by (simp add: greedyMatchPhrases_def greedyLoop.simps eval_simps exampleManifest_def)
  have s2: "generateScript exampleRuntime ?m2 [js ''__proto__'']
      (greedyMatchPhrases ?m2 [js ''__proto__'']) (js ''abc'') =
      Some (Inr [Bare (js ''__proto__'') StaticType])"
    unfolding g2
    by (simp add: generateScript_def generateScriptRun_def script_eval_simps isPunctuation_def)
  have p1: "generatePlaylist exampleRuntime None (js ''2025-11-16T10:00:00.000Z'') ?m1 (js ''abc'') =
      Some (Inl TypeError)"
    by (simp add: generatePlaylist_unfold s1)
  have p2: "generatePlaylist exampleRuntime None (js ''2025-11-16T10:00:00.000Z'') ?m2 (js ''abc'') =
      Some (Inl TypeError)"
    by (simp add: generatePlaylist_unfold s2)
  from p1 p2 show ?thesis by simp
qed

subsection \<open>What the result depends on\<close>

text \<open>
  Claim C4, as it is stated, at the example: two runs with the same manifest, tokens and
  seed that read the clock one second apart return different results, since the playlist
  prints the reading of the clock in its \<^verbatim>\<open># Generated:\<close> line.
\<close>

theorem playlist_differs_with_clock:
  "generatePlaylist exampleRuntime None (js ''2025-11-16T10:00:00.000Z'') exampleManifest (js ''abc'') \<noteq>
   generatePlaylist exampleRuntime None (js ''2025-11-16T10:00:01.000Z'') exampleManifest (js ''abc'')"
proof
  let ?t1 = "js ''2025-11-16T10:00:00.000Z''" and ?t2 = "js ''2025-11-16T10:00:01.000Z''"
  assume "generatePlaylist exampleRuntime None ?t1 exampleManifest (js ''abc'') =
          generatePlaylist exampleRuntime None ?t2 exampleManifest (js ''abc'')"
  then have "?t1 = ?t2"
    by (simp add: example_generatePlaylist buildM3U8_timestamp)
  then show False by (simp add: js_def)
qed

text \<open>
  Claim C4, amended. For a runtime, a base URL, a manifest and a seed, what
  \<^verbatim>\<open>generatePlaylist\<close> does depends on the clock in one place only. Either it throws the
  same error at every reading of the clock; or it returns at every reading, with the
  same tokens, matches and script, and a playlist that is the same head, ending with
  \<^verbatim>\<open># Generated: \<close>, then the reading of the clock, then a line break and a rest that is the
  same for every reading.
\<close>

theorem pipeline_deterministic_except_timestamp:
  "(\<exists>e. \<forall>now. generatePlaylist rt r2BaseUrl now m sessionId = Some (Inl e)) \<or>
   (\<exists>tokens script post.
      fixedTokens m = Some tokens \<and>
      generateScript rt m tokens (greedyMatchPhrases m tokens) sessionId = Some (Inr script) \<and>
      (\<forall>now. generatePlaylist rt r2BaseUrl now m sessionId =
         Some (Inr \<lparr>res_playlist = playlistHead sessionId @ now @ [0x0A] @ post,
                    res_script = script, res_tokens = tokens,
                    res_matches = greedyMatchPhrases m tokens\<rparr>)))"
proof (cases "fixedTokens m")
  case None
  then have "\<forall>now. generatePlaylist rt r2BaseUrl now m sessionId =
      Some (Inl (Error (js ''No fixed text available in manifest'')))"
    by (simp add: generatePlaylist_unfold)
  then show ?thesis by blast
next
  case (Some tokens)
  from generateScript_ends [of rt m tokens sessionId]
  obtain r where r: "generateScript rt m tokens (greedyMatchPhrases m tokens) sessionId = Some r"
    by blast
  show ?thesis
  proof (cases r)
    case (Inl e)
    with Some r have "\<forall>now. generatePlaylist rt r2BaseUrl now m sessionId = Some (Inl e)"
      by (simp add: generatePlaylist_unfold)
    then show ?thesis by blast
  next
    case (Inr script)
    show ?thesis
    proof (cases "scriptItems script")
      case None
      with Some r Inr have "\<forall>now. generatePlaylist rt r2BaseUrl now m sessionId = Some (Inl TypeError)"
        by (simp add: generatePlaylist_unfold)
      then show ?thesis by blast
    next
      case (Some items)
      let ?post = "joinWith [0x0A] (drop 6 (buildLines rt r2BaseUrl [] items sessionId))"
      from \<open>fixedTokens m = Some tokens\<close> r Inr Some
      have "\<forall>now. generatePlaylist rt r2BaseUrl now m sessionId =
         Some (Inr \<lparr>res_playlist = playlistHead sessionId @ now @ [0x0A] @ ?post,
                    res_script = script, res_tokens = tokens,
                    res_matches = greedyMatchPhrases m tokens\<rparr>)"
        by (simp add: generatePlaylist_unfold buildM3U8_timestamp)
      with \<open>fixedTokens m = Some tokens\<close> r Inr show ?thesis by blast
    qed
  qed
qed

theorem pipeline_deterministic_except_timestamp_witness:
  "fixedTokens exampleManifest = Some exampleTokens \<and>
   (\<exists>post. \<forall>now. generatePlaylist exampleRuntime None now exampleManifest (js ''abc'') =
      Some (Inr \<lparr>res_playlist = playlistHead (js ''abc'') @ now @ [0x0A] @ post,
                 res_script = map Item exampleScript, res_tokens = exampleTokens,
                 res_matches = exampleMatches\<rparr>))"
proof -
  have f: "fixedTokens exampleManifest = Some exampleTokens"
    by (simp add: exampleManifest_def exampleTokens_def)
  have e: "greedyMatchPhrases exampleManifest exampleTokens = exampleMatches"
    by (simp add: greedy_exampleTokens exampleMatches_def)
  have n: "\<not> (\<exists>e. \<forall>now. generatePlaylist exampleRuntime None now exampleManifest (js ''abc'') =
                Some (Inl e))"
    by (simp add: example_generatePlaylist)
  from pipeline_deterministic_except_timestamp [of exampleRuntime None exampleManifest "js ''abc''"] n
  obtain tokens script post where
    t: "fixedTokens exampleManifest = Some tokens"
    and s: "generateScript exampleRuntime exampleManifest tokens
          (greedyMatchPhrases exampleManifest tokens) (js ''abc'') = Some (Inr script)"
    and p: "\<forall>now. generatePlaylist exampleRuntime None now exampleManifest (js ''abc'') =
            Some (Inr \<lparr>res_playlist = playlistHead (js ''abc'') @ now @ [0x0A] @ post,
                       res_script = script, res_tokens = tokens,
                       res_matches = greedyMatchPhrases exampleManifest tokens\<rparr>)"
    by blast
  from t f have "tokens = exampleTokens" by simp
  with s e example_generateScript have "script = map Item exampleScript" by simp
  with p e f \<open>tokens = exampleTokens\<close> show ?thesis by auto
qed

end
